theory Spec2Isabelle
  imports Main "HOL-Library.Signed_Division" "HOL-Library.Multiset" "HOL-Library.Word"
begin

section \<open>The priority queue of grupo\_3\_tp\_3\<close>

text \<open>
  The repository holds two versions of \<^verbatim>\<open>priority_queue.c\<close>:
  \<^item> \<^verbatim>\<open>app/src/priority_queue.c\<close>, compiled with \<^verbatim>\<open>app/inc/priority_queue.h\<close>;
  \<^item> \<^verbatim>\<open>unnamed/part_001\<close>.
  Their text is the same except at four places: the comparison of \<^verbatim>\<open>_heapifyUp\<close>, the
  two comparisons of \<^verbatim>\<open>_heapifyDown\<close>, the start count of the counting semaphore in
  \<^verbatim>\<open>xPriorityQueueCreate\<close>, and the way \<^verbatim>\<open>xPriorityQueueReceive\<close> takes the mutex.
  Every function below takes the file it is read from as its first argument and differs
  between the two files at those places only.
\<close>

datatype pq_file = App_src | Part_001

subsection \<open>priority\_queue.h\<close>

datatype pq_priority_t = LOW_PRIORITY | MEDIUM_PRIORITY | HIGH_PRIORITY

text \<open>The value of each enumerator, which is what the C comparisons compare.\<close>

fun enum_val :: "pq_priority_t \<Rightarrow> int" where
  "enum_val LOW_PRIORITY = 0"
| "enum_val MEDIUM_PRIORITY = 1"
| "enum_val HIGH_PRIORITY = 2"

record pq_event_t =
  priority :: pq_priority_t

definition PQ_MAX_EVENT_SIZE :: int where
  "PQ_MAX_EVENT_SIZE = 10"

subsection \<open>The FreeRTOS interface the queue calls\<close>

text \<open>
  FreeRTOS is not part of the repository. A semaphore is its count and its maximum count;
  a mutex is a semaphore of maximum count 1 that is created available. The calls are
  modelled as FreeRTOS documents them, for a call during which no other task touches the
  semaphore: a take of an available semaphore decrements the count, a take of an
  unavailable one returns \<open>pdFALSE\<close> once the wait expires, and never returns when the wait
  is \<open>portMAX_DELAY\<close>; a give increments the count unless it is at its maximum.
\<close>

type_synonym BaseType_t = int
type_synonym TickType_t = "32 word"

definition pdFALSE :: BaseType_t where "pdFALSE = 0"
definition pdTRUE :: BaseType_t where "pdTRUE = 1"
definition pdFAIL :: BaseType_t where "pdFAIL = pdFALSE"
definition pdPASS :: BaseType_t where "pdPASS = pdTRUE"

definition portMAX_DELAY :: TickType_t where
  "portMAX_DELAY = 0xFFFFFFFF"

record SemaphoreHandle_t =
  uxMessagesWaiting :: nat
  uxLength :: nat

datatype fault = OutOfBounds | BlocksForever

definition xSemaphoreTake ::
  "SemaphoreHandle_t \<Rightarrow> TickType_t \<Rightarrow> fault + (BaseType_t \<times> SemaphoreHandle_t)" where
  "xSemaphoreTake s xTicksToWait =
     (if 0 < uxMessagesWaiting s
      then Inr (pdTRUE, s\<lparr>uxMessagesWaiting := uxMessagesWaiting s - 1\<rparr>)
      else if xTicksToWait = portMAX_DELAY then Inl BlocksForever
      else Inr (pdFALSE, s))"

definition xSemaphoreGive :: "SemaphoreHandle_t \<Rightarrow> BaseType_t \<times> SemaphoreHandle_t" where
  "xSemaphoreGive s =
     (if uxMessagesWaiting s < uxLength s
      then (pdTRUE, s\<lparr>uxMessagesWaiting := uxMessagesWaiting s + 1\<rparr>)
      else (pdFALSE, s))"

text \<open>
  What the allocator and the kernel answer to the three requests of
  \<^verbatim>\<open>xPriorityQueueCreate\<close>, and the content of the block \<^verbatim>\<open>pvPortMalloc\<close> hands out,
  which it does not clear.
\<close>

record kernel_env =
  malloc_ok :: bool
  raw_events :: "pq_event_t list"
  mutex_ok :: bool
  counting_ok :: bool

definition xSemaphoreCreateMutex :: "kernel_env \<Rightarrow> SemaphoreHandle_t option" where
  "xSemaphoreCreateMutex env =
     (if mutex_ok env then Some \<lparr>uxMessagesWaiting = 1, uxLength = 1\<rparr> else None)"

definition xSemaphoreCreateCounting ::
  "kernel_env \<Rightarrow> int \<Rightarrow> int \<Rightarrow> SemaphoreHandle_t option" where
  "xSemaphoreCreateCounting env uxMaxCount uxInitialCount =
     (if counting_ok env
      then Some \<lparr>uxMessagesWaiting = nat uxInitialCount, uxLength = nat uxMaxCount\<rparr>
      else None)"

subsection \<open>The queue\<close>

text \<open>
  The field \<^verbatim>\<open>size\<close> is \<open>pq_size\<close> here, and the static functions \<^verbatim>\<open>_swap\<close>,
  \<^verbatim>\<open>_heapifyUp\<close> and \<^verbatim>\<open>_heapifyDown\<close> are \<open>pq_swap\<close>, \<open>heapifyUp\<close> and
  \<open>heapifyDown\<close>. The two semaphores, which the C structure holds by handle, are held
  by value: no other object refers to them.
\<close>

record pq_handle_t =
  events :: "pq_event_t list"
  pq_size :: int
  mutex :: SemaphoreHandle_t
  eventSemaphore :: SemaphoreHandle_t

text \<open>
  Reads and writes of \<^verbatim>\<open>pq->events[i]\<close>. The C array has no check; the model makes the
  access outside the array a fault, so that a result \<open>Inr\<close> says every access was inside.
\<close>

definition rd :: "pq_event_t list \<Rightarrow> int \<Rightarrow> fault + pq_event_t" where
  "rd a i = (if 0 \<le> i \<and> i < int (length a) then Inr (a ! nat i) else Inl OutOfBounds)"

definition wr :: "pq_event_t list \<Rightarrow> int \<Rightarrow> pq_event_t \<Rightarrow> fault + pq_event_t list" where
  "wr a i e = (if 0 \<le> i \<and> i < int (length a) then Inr (a[nat i := e]) else Inl OutOfBounds)"

text \<open>\<^verbatim>\<open>_swap(&pq->events[i], &pq->events[j])\<close>: two reads, then two writes.\<close>

definition pq_swap :: "pq_event_t list \<Rightarrow> int \<Rightarrow> int \<Rightarrow> fault + pq_event_t list" where
  "pq_swap a i j =
     (case rd a i of Inl x \<Rightarrow> Inl x | Inr temp \<Rightarrow>
     (case rd a j of Inl x \<Rightarrow> Inl x | Inr bj \<Rightarrow>
     (case wr a i bj of Inl x \<Rightarrow> Inl x | Inr a' \<Rightarrow> wr a' j temp)))"

text \<open>
  The strict comparison both heap walks use: \<^verbatim>\<open><\<close> in \<^verbatim>\<open>app/src/priority_queue.c\<close>,
  \<^verbatim>\<open>>\<close> in \<^verbatim>\<open>part_001\<close>.
\<close>

fun moves_up :: "pq_file \<Rightarrow> pq_priority_t \<Rightarrow> pq_priority_t \<Rightarrow> bool" where
  "moves_up App_src p q = (enum_val p < enum_val q)"
| "moves_up Part_001 p q = (enum_val p > enum_val q)"

text \<open>\<^verbatim>\<open>_heapifyUp\<close>. The division of C truncates towards zero: \<open>sdiv\<close>.\<close>

function heapifyUp :: "pq_file \<Rightarrow> pq_handle_t \<Rightarrow> int \<Rightarrow> fault + pq_handle_t" where
  "heapifyUp f pq index =
     (let parentIndex = (index - 1) sdiv 2 in
      if parentIndex \<ge> 0 then
        (case rd (events pq) index of Inl x \<Rightarrow> Inl x | Inr a \<Rightarrow>
        (case rd (events pq) parentIndex of Inl x \<Rightarrow> Inl x | Inr b \<Rightarrow>
           if moves_up f (priority a) (priority b) then
             (case pq_swap (events pq) index parentIndex of Inl x \<Rightarrow> Inl x
              | Inr a' \<Rightarrow> heapifyUp f (pq\<lparr>events := a'\<rparr>) parentIndex)
           else Inr pq))
      else Inr pq)"
  by pat_completeness auto

text \<open>
  One of the two tests of \<^verbatim>\<open>_heapifyDown\<close>:
  \<^verbatim>\<open>if (child < pq->size && events[child].priority < events[smallest].priority) smallest = child;\<close>
  It returns the new value of \<^verbatim>\<open>smallest\<close> (\<^verbatim>\<open>largest\<close> in \<^verbatim>\<open>part_001\<close>).
\<close>

definition pick_child :: "pq_file \<Rightarrow> pq_handle_t \<Rightarrow> int \<Rightarrow> int \<Rightarrow> fault + int" where
  "pick_child f pq child smallest =
     (if child < pq_size pq then
        (case rd (events pq) child of Inl x \<Rightarrow> Inl x | Inr c \<Rightarrow>
        (case rd (events pq) smallest of Inl x \<Rightarrow> Inl x | Inr s \<Rightarrow>
           Inr (if moves_up f (priority c) (priority s) then child else smallest)))
      else Inr smallest)"

text \<open>\<^verbatim>\<open>_heapifyDown\<close>.\<close>

function heapifyDown :: "pq_file \<Rightarrow> pq_handle_t \<Rightarrow> int \<Rightarrow> fault + pq_handle_t" where
  "heapifyDown f pq index =
     (let leftChild = 2 * index + 1; rightChild = 2 * index + 2 in
      case pick_child f pq leftChild index of Inl x \<Rightarrow> Inl x | Inr smallest1 \<Rightarrow>
     (case pick_child f pq rightChild smallest1 of Inl x \<Rightarrow> Inl x | Inr smallest \<Rightarrow>
        if smallest \<noteq> index then
          (case pq_swap (events pq) index smallest of Inl x \<Rightarrow> Inl x
           | Inr a' \<Rightarrow> heapifyDown f (pq\<lparr>events := a'\<rparr>) smallest)
        else Inr pq))"
  by pat_completeness auto

subsection \<open>xPriorityQueueCreate\<close>

text \<open>
  What is allocated: the block of \<^verbatim>\<open>pvPortMalloc\<close> and the two kernel objects. The
  second component of the result of \<open>xPriorityQueueCreate\<close> lists what is still
  allocated when the call returns.
\<close>

datatype resource = QueueBlock | MutexObject | CountingObject

definition vPortFree :: "resource list \<Rightarrow> resource list" where
  "vPortFree live = remove1 QueueBlock live"

text \<open>
  The second argument of \<^verbatim>\<open>xSemaphoreCreateCounting\<close>: \<^verbatim>\<open>PQ_MAX_EVENT_SIZE\<close> in
  \<^verbatim>\<open>app/src/priority_queue.c\<close>, \<^verbatim>\<open>0\<close> in \<^verbatim>\<open>part_001\<close>.
\<close>

fun uxInitialCount :: "pq_file \<Rightarrow> int" where
  "uxInitialCount App_src = PQ_MAX_EVENT_SIZE"
| "uxInitialCount Part_001 = 0"

definition xPriorityQueueCreate ::
  "pq_file \<Rightarrow> kernel_env \<Rightarrow> pq_handle_t option \<times> resource list" where
  "xPriorityQueueCreate f env =
     (if \<not> malloc_ok env then (None, [])
      else
        let live = [QueueBlock] in
        (case xSemaphoreCreateMutex env of
           None \<Rightarrow> (None, vPortFree live)
         | Some m \<Rightarrow>
            let live = MutexObject # live in
            (case xSemaphoreCreateCounting env PQ_MAX_EVENT_SIZE (uxInitialCount f) of
               None \<Rightarrow> (None, vPortFree live)
             | Some s \<Rightarrow>
                (Some \<lparr>events = raw_events env, pq_size = 0, mutex = m, eventSemaphore = s\<rparr>,
                 CountingObject # live))))"

subsection \<open>xPriorityQueueSend\<close>

definition xPriorityQueueSend ::
  "pq_file \<Rightarrow> pq_handle_t \<Rightarrow> pq_event_t \<Rightarrow> TickType_t \<Rightarrow> fault + (BaseType_t \<times> pq_handle_t)" where
  "xPriorityQueueSend f pq event ticksToWait =
     (case xSemaphoreTake (mutex pq) ticksToWait of Inl x \<Rightarrow> Inl x
      | Inr (taken, m) \<Rightarrow>
         let pq = pq\<lparr>mutex := m\<rparr> in
         if pdTRUE = taken then
           if PQ_MAX_EVENT_SIZE \<le> pq_size pq then
             Inr (pdFAIL, pq\<lparr>mutex := snd (xSemaphoreGive (mutex pq))\<rparr>)
           else
             (case wr (events pq) (pq_size pq) event of Inl x \<Rightarrow> Inl x | Inr a' \<Rightarrow>
                let pq = pq\<lparr>events := a', pq_size := pq_size pq + 1\<rparr> in
                (case heapifyUp f pq (pq_size pq - 1) of Inl x \<Rightarrow> Inl x | Inr pq \<Rightarrow>
                   let pq = pq\<lparr>eventSemaphore := snd (xSemaphoreGive (eventSemaphore pq))\<rparr>;
                       pq = pq\<lparr>mutex := snd (xSemaphoreGive (mutex pq))\<rparr>
                   in Inr (pdPASS, pq)))
         else Inr (pdFAIL, pq))"

subsection \<open>xPriorityQueueReceive\<close>

text \<open>
  The block \<^verbatim>\<open>if (0 < pq->size) { ... }\<close> that both files run with the mutex held. The
  first component of the result is what was stored into \<^verbatim>\<open>*event\<close>: \<open>None\<close> when
  nothing was stored.
\<close>

definition receive_locked ::
  "pq_file \<Rightarrow> pq_handle_t \<Rightarrow> fault + (pq_event_t option \<times> pq_handle_t)" where
  "receive_locked f pq =
     (if 0 < pq_size pq then
        (case rd (events pq) 0 of Inl x \<Rightarrow> Inl x | Inr e \<Rightarrow>
        (case rd (events pq) (pq_size pq - 1) of Inl x \<Rightarrow> Inl x | Inr l \<Rightarrow>
        (case wr (events pq) 0 l of Inl x \<Rightarrow> Inl x | Inr a' \<Rightarrow>
        (case heapifyDown f (pq\<lparr>events := a', pq_size := pq_size pq - 1\<rparr>) 0 of
           Inl x \<Rightarrow> Inl x
         | Inr pq' \<Rightarrow> Inr (Some e, pq')))))
      else Inr (None, pq))"

text \<open>
  \<^verbatim>\<open>app/src/priority_queue.c\<close> takes the mutex with \<^verbatim>\<open>portMAX_DELAY\<close> and does not
  look at the result; \<^verbatim>\<open>part_001\<close> waits 10 ticks and returns \<^verbatim>\<open>pdFAIL\<close> when it did
  not get the mutex.
\<close>

fun xPriorityQueueReceive ::
  "pq_file \<Rightarrow> pq_handle_t \<Rightarrow> TickType_t \<Rightarrow>
     fault + (BaseType_t \<times> pq_event_t option \<times> pq_handle_t)" where
  "xPriorityQueueReceive App_src pq ticksToWait =
     (case xSemaphoreTake (eventSemaphore pq) ticksToWait of Inl x \<Rightarrow> Inl x
      | Inr (signalled, s) \<Rightarrow>
         let pq = pq\<lparr>eventSemaphore := s\<rparr> in
         if pdTRUE = signalled then
           (case xSemaphoreTake (mutex pq) portMAX_DELAY of Inl x \<Rightarrow> Inl x
            | Inr (taken, m) \<Rightarrow>
               (case receive_locked App_src (pq\<lparr>mutex := m\<rparr>) of Inl x \<Rightarrow> Inl x
                | Inr (event, pq) \<Rightarrow>
                   Inr (pdPASS, event, pq\<lparr>mutex := snd (xSemaphoreGive (mutex pq))\<rparr>)))
         else Inr (pdFAIL, None, pq))"
| "xPriorityQueueReceive Part_001 pq ticksToWait =
     (case xSemaphoreTake (eventSemaphore pq) ticksToWait of Inl x \<Rightarrow> Inl x
      | Inr (signalled, s) \<Rightarrow>
         let pq = pq\<lparr>eventSemaphore := s\<rparr> in
         if pdTRUE = signalled then
           (case xSemaphoreTake (mutex pq) 10 of Inl x \<Rightarrow> Inl x
            | Inr (taken, m) \<Rightarrow>
               let pq = pq\<lparr>mutex := m\<rparr> in
               if pdTRUE = taken then
                 (case receive_locked Part_001 pq of Inl x \<Rightarrow> Inl x
                  | Inr (event, pq) \<Rightarrow>
                     Inr (pdPASS, event, pq\<lparr>mutex := snd (xSemaphoreGive (mutex pq))\<rparr>))
               else Inr (pdFAIL, None, pq))
         else Inr (pdFAIL, None, pq))"

subsection \<open>Sequences of calls\<close>

datatype call = Send pq_event_t TickType_t | Receive TickType_t

datatype outcome = Sent BaseType_t | Received BaseType_t "pq_event_t option"

text \<open>
  The calls of a list made one after the other on the same queue, each one complete
  before the next starts, with the value each call returned.
\<close>

fun run :: "pq_file \<Rightarrow> pq_handle_t \<Rightarrow> call list \<Rightarrow> fault + (outcome list \<times> pq_handle_t)" where
  "run f pq [] = Inr ([], pq)"
| "run f pq (Send e t # cs) =
     (case xPriorityQueueSend f pq e t of Inl x \<Rightarrow> Inl x
      | Inr (r, pq') \<Rightarrow>
         (case run f pq' cs of Inl x \<Rightarrow> Inl x
          | Inr (os, pq'') \<Rightarrow> Inr (Sent r # os, pq'')))"
| "run f pq (Receive t # cs) =
     (case xPriorityQueueReceive f pq t of Inl x \<Rightarrow> Inl x
      | Inr (r, ev, pq') \<Rightarrow>
         (case run f pq' cs of Inl x \<Rightarrow> Inl x
          | Inr (os, pq'') \<Rightarrow> Inr (Received r ev # os, pq'')))"

text \<open>
  A queue is created, then the calls of the list are made on it. \<open>None\<close> when
  \<^verbatim>\<open>xPriorityQueueCreate\<close> returned \<^verbatim>\<open>NULL\<close>.
\<close>

definition scenario ::
  "pq_file \<Rightarrow> kernel_env \<Rightarrow> call list \<Rightarrow> (fault + (outcome list \<times> pq_handle_t)) option" where
  "scenario f env cs = map_option (\<lambda>pq. run f pq cs) (fst (xPriorityQueueCreate f env))"

text \<open>
  An environment in which the three requests of \<^verbatim>\<open>xPriorityQueueCreate\<close> succeed and the
  block holds the given events.
\<close>

definition all_ok :: "pq_event_t list \<Rightarrow> kernel_env" where
  "all_ok raw = \<lparr>malloc_ok = True, raw_events = raw, mutex_ok = True, counting_ok = True\<rparr>"

definition ev :: "pq_priority_t \<Rightarrow> pq_event_t" where
  "ev p = \<lparr>priority = p\<rparr>"

subsection \<open>Predicates on queue states\<close>

text \<open>The array has \<^verbatim>\<open>PQ_MAX_EVENT_SIZE\<close> cells and \<^verbatim>\<open>size\<close> is between 0 and that.\<close>

definition wf_queue :: "pq_handle_t \<Rightarrow> bool" where
  "wf_queue pq \<longleftrightarrow>
     int (length (events pq)) = PQ_MAX_EVENT_SIZE \<and> 0 \<le> pq_size pq \<and> pq_size pq \<le> PQ_MAX_EVENT_SIZE"

text \<open>No task holds the mutex.\<close>

definition mutex_free :: "pq_handle_t \<Rightarrow> bool" where
  "mutex_free pq \<longleftrightarrow> mutex pq = \<lparr>uxMessagesWaiting = 1, uxLength = 1\<rparr>"

text \<open>What a walk leaves alone: the length of the array and the other three fields.\<close>

definition same_frame :: "pq_handle_t \<Rightarrow> pq_handle_t \<Rightarrow> bool" where
  "same_frame pq pq' \<longleftrightarrow>
     length (events pq') = length (events pq) \<and> pq_size pq' = pq_size pq \<and>
     mutex pq' = mutex pq \<and> eventSemaphore pq' = eventSemaphore pq"

text \<open>The value a send returns, without the state.\<close>

definition send_returns :: "pq_file \<Rightarrow> pq_handle_t \<Rightarrow> pq_event_t \<Rightarrow> TickType_t \<Rightarrow> fault + BaseType_t" where
  "send_returns f pq e t = map_sum id fst (xPriorityQueueSend f pq e t)"

subsection \<open>States used as examples\<close>

text \<open>A queue that holds ten events and whose mutex is free.\<close>

definition full_queue :: pq_handle_t where
  "full_queue = \<lparr>events = replicate 10 (ev HIGH_PRIORITY), pq_size = 10,
     mutex = \<lparr>uxMessagesWaiting = 1, uxLength = 1\<rparr>,
     eventSemaphore = \<lparr>uxMessagesWaiting = 10, uxLength = 10\<rparr>\<rparr>"

text \<open>
  A queue of three events whose array is cut at \<^verbatim>\<open>size\<close>: a walk that returns on it
  has touched no cell at or beyond \<^verbatim>\<open>size\<close>.
\<close>

definition three_queue :: pq_handle_t where
  "three_queue = \<lparr>events = [ev LOW_PRIORITY, ev MEDIUM_PRIORITY, ev HIGH_PRIORITY], pq_size = 3,
     mutex = \<lparr>uxMessagesWaiting = 1, uxLength = 1\<rparr>,
     eventSemaphore = \<lparr>uxMessagesWaiting = 3, uxLength = 10\<rparr>\<rparr>"

text \<open>An empty queue whose mutex another task holds.\<close>

definition held_queue :: pq_handle_t where
  "held_queue = \<lparr>events = replicate 10 (ev LOW_PRIORITY), pq_size = 0,
     mutex = \<lparr>uxMessagesWaiting = 0, uxLength = 1\<rparr>,
     eventSemaphore = \<lparr>uxMessagesWaiting = 0, uxLength = 10\<rparr>\<rparr>"

text \<open>Some content for the block a queue is created in.\<close>

definition blank :: "pq_event_t list" where
  "blank = [ev LOW_PRIORITY, ev LOW_PRIORITY, ev LOW_PRIORITY, ev LOW_PRIORITY, ev LOW_PRIORITY,
     ev LOW_PRIORITY, ev LOW_PRIORITY, ev LOW_PRIORITY, ev LOW_PRIORITY, ev LOW_PRIORITY]"

subsection \<open>Counting the calls that passed\<close>

fun sends_passed :: "outcome list \<Rightarrow> int" where
  "sends_passed [] = 0"
| "sends_passed (Sent r # os) = (if r = pdPASS then 1 else 0) + sends_passed os"
| "sends_passed (Received r e # os) = sends_passed os"

fun receives_passed :: "outcome list \<Rightarrow> int" where
  "receives_passed [] = 0"
| "receives_passed (Sent r # os) = receives_passed os"
| "receives_passed (Received r e # os) = (if r = pdPASS then 1 else 0) + receives_passed os"

subsection \<open>The order of the heap\<close>

text \<open>
  Claim C1's max-heap order on the occupied cells: no child below \<^verbatim>\<open>size\<close> has a
  higher priority than its parent.
\<close>

definition is_max_heap :: "pq_handle_t \<Rightarrow> bool" where
  "is_max_heap pq \<longleftrightarrow>
     (\<forall>i \<in> {0 ..< pq_size pq}.
        (2 * i + 1 < pq_size pq \<longrightarrow>
           enum_val (priority (events pq ! nat (2 * i + 1))) \<le> enum_val (priority (events pq ! nat i))) \<and>
        (2 * i + 2 < pq_size pq \<longrightarrow>
           enum_val (priority (events pq ! nat (2 * i + 2))) \<le> enum_val (priority (events pq ! nat i))))"

text \<open>
  For the proofs the order is stated once for both files, on the number a walk compares:
  the value of the priority in \<^verbatim>\<open>part_001\<close>, its negation in
  \<^verbatim>\<open>app/src/priority_queue.c\<close>, so that \<open>moves_up f p q\<close> is \<open>rank f q < rank f p\<close>.
\<close>

fun rank :: "pq_file \<Rightarrow> pq_priority_t \<Rightarrow> int" where
  "rank App_src p = - enum_val p"
| "rank Part_001 p = enum_val p"

definition key :: "pq_file \<Rightarrow> pq_event_t list \<Rightarrow> int \<Rightarrow> int" where
  "key f a c = (if 0 \<le> c then rank f (priority (a ! nat c)) else 0)"

definition par :: "int \<Rightarrow> int" where
  "par c = (c - 1) div 2"

text \<open>Every cell below \<open>n\<close> but the root is at most its parent.\<close>

definition heap_ord :: "(int \<Rightarrow> int) \<Rightarrow> int \<Rightarrow> bool" where
  "heap_ord k n \<longleftrightarrow> (\<forall>c. 0 < c \<and> c < n \<longrightarrow> k c \<le> k (par c))"

text \<open>
  The order while \<^verbatim>\<open>_heapifyUp\<close> is at cell \<open>i\<close>: it may fail between \<open>i\<close> and its
  parent only, and the children of \<open>i\<close> are at most the parent of \<open>i\<close>.
\<close>

definition up_inv :: "(int \<Rightarrow> int) \<Rightarrow> int \<Rightarrow> int \<Rightarrow> bool" where
  "up_inv k n i \<longleftrightarrow>
     (\<forall>c. 0 < c \<and> c < n \<and> c \<noteq> i \<longrightarrow> k c \<le> k (par c)) \<and>
     (\<forall>c. 0 < c \<and> c < n \<and> par c = i \<and> 0 < i \<longrightarrow> k c \<le> k (par i))"

text \<open>
  The order while \<^verbatim>\<open>_heapifyDown\<close> is at cell \<open>i\<close>: it may fail between \<open>i\<close> and its
  children only, and the children of \<open>i\<close> are at most the parent of \<open>i\<close>.
\<close>

definition down_inv :: "(int \<Rightarrow> int) \<Rightarrow> int \<Rightarrow> int \<Rightarrow> bool" where
  "down_inv k n i \<longleftrightarrow>
     (\<forall>c. 0 < c \<and> c < n \<and> par c \<noteq> i \<longrightarrow> k c \<le> k (par c)) \<and>
     (\<forall>c. 0 < c \<and> c < n \<and> par c = i \<and> 0 < i \<longrightarrow> k c \<le> k (par i))"

definition swapf :: "(int \<Rightarrow> int) \<Rightarrow> int \<Rightarrow> int \<Rightarrow> int \<Rightarrow> int" where
  "swapf k i j = k(i := k j, j := k i)"

text \<open>
  What holds between two calls when each call runs alone: the array and \<^verbatim>\<open>size\<close> are
  well formed, the heap is in order, no task holds the mutex, and the semaphore counts
  the events stored.
\<close>

definition settled :: "pq_file \<Rightarrow> pq_handle_t \<Rightarrow> bool" where
  "settled f pq \<longleftrightarrow>
     wf_queue pq \<and> heap_ord (key f (events pq)) (pq_size pq) \<and> mutex_free pq \<and>
     eventSemaphore pq = \<lparr>uxMessagesWaiting = nat (pq_size pq), uxLength = 10\<rparr>"

section \<open>Termination of the heap walks\<close>

lemma moves_up_irrefl [simp]: "\<not> moves_up f p p"
  by (cases f) simp_all

lemma one_sdiv_two [simp]: "(1::int) sdiv 2 = 0"
  by (simp add: signed_divide_int_def)

lemma parent_pos: "0 < (i::int) \<Longrightarrow> (i - 1) sdiv 2 = (i - 1) div 2"
  by (simp add: signed_divide_int_def sgn_if)

lemma parent_less: "0 < (i::int) \<Longrightarrow> (i - 1) sdiv 2 < i"
  by (simp add: parent_pos)

lemma heapifyUp_descends:
  assumes "rd a index = Inr x" and "rd a ((index - 1) sdiv 2) = Inr y"
    and "moves_up f (priority x) (priority y)"
  shows "(index - 1) sdiv 2 < index"
proof -
  have "0 \<le> index"
    using assms(1) by (simp add: rd_def split: if_splits)
  moreover have "index \<noteq> 0"
  proof
    assume "index = 0"
    with assms show False by (simp add: rd_def split: if_splits)
  qed
  ultimately have "0 < index" by simp
  then show ?thesis by (rule parent_less)
qed

lemma heapifyUp_total: "All heapifyUp_dom"
proof (relation "measure (\<lambda>(f, pq, index). nat index)", goal_cases)
  case 1
  show ?case by simp
next
  case (2 f pq index parentIndex a b a')
  then show ?case
    using heapifyUp_descends [of "events pq" index a b f] by simp
qed

termination heapifyUp
  by (rule heapifyUp_total)

lemma pick_child_cases:
  "pick_child f pq c s = Inr r \<Longrightarrow> r = s \<or> (r = c \<and> 0 \<le> c \<and> c < pq_size pq)"
  by (auto simp: pick_child_def rd_def split: if_splits sum.splits)

lemma heapifyDown_descends:
  assumes "pick_child f pq (2 * index + 1) index = Inr s1"
    and "pick_child f pq (2 * index + 2) s1 = Inr s" and "s \<noteq> index"
  shows "index < s \<and> s < pq_size pq"
  using pick_child_cases [OF assms(1)] pick_child_cases [OF assms(2)] assms(3) by auto

lemma heapifyDown_total: "All heapifyDown_dom"
proof (relation "measure (\<lambda>(f, pq, index). nat (pq_size pq - index))", goal_cases)
  case 1
  show ?case by simp
next
  case (2 f pq index leftChild rightChild smallest1 smallest a')
  then show ?case
    using heapifyDown_descends [of f pq index smallest1 smallest] by simp
qed

termination heapifyDown
  by (rule heapifyDown_total)

declare heapifyUp.simps [simp del] heapifyDown.simps [simp del]

section \<open>Facts used throughout\<close>

lemmas sem_defs = xSemaphoreTake_def xSemaphoreGive_def pdTRUE_def pdFALSE_def pdPASS_def
  pdFAIL_def portMAX_DELAY_def

lemma create_all_ok:
  "xPriorityQueueCreate f (all_ok raw) =
     (Some \<lparr>events = raw, pq_size = 0, mutex = \<lparr>uxMessagesWaiting = 1, uxLength = 1\<rparr>,
            eventSemaphore = \<lparr>uxMessagesWaiting = nat (uxInitialCount f), uxLength = 10\<rparr>\<rparr>,
      [CountingObject, MutexObject, QueueBlock])"
  by (simp add: xPriorityQueueCreate_def all_ok_def xSemaphoreCreateMutex_def
      xSemaphoreCreateCounting_def PQ_MAX_EVENT_SIZE_def)

section \<open>The calls return, and no access leaves the array\<close>

lemma parent_bounds: "0 \<le> (i::int) \<Longrightarrow> 0 \<le> (i - 1) sdiv 2 \<and> (i - 1) sdiv 2 \<le> i"
  by (cases "i = 0") (simp_all add: parent_pos)

lemma rd_in: "0 \<le> i \<Longrightarrow> i < int (length a) \<Longrightarrow> rd a i = Inr (a ! nat i)"
  by (simp add: rd_def)

lemma wr_in: "0 \<le> i \<Longrightarrow> i < int (length a) \<Longrightarrow> wr a i e = Inr (a[nat i := e])"
  by (simp add: wr_def)

lemma pq_swap_in:
  "0 \<le> i \<Longrightarrow> i < int (length a) \<Longrightarrow> 0 \<le> j \<Longrightarrow> j < int (length a) \<Longrightarrow>
   pq_swap a i j = Inr (a[nat i := a ! nat j, nat j := a ! nat i])"
  by (simp add: pq_swap_def rd_in wr_in)

lemma same_frame_refl [simp]: "same_frame pq pq"
  by (simp add: same_frame_def)

lemma same_frame_step:
  "length a' = length (events pq) \<Longrightarrow> same_frame (pq\<lparr>events := a'\<rparr>) pq' \<Longrightarrow> same_frame pq pq'"
  by (simp add: same_frame_def)

lemma heapifyUp_returns:
  "0 \<le> index \<Longrightarrow> index < int (length (events pq)) \<Longrightarrow>
   \<exists>pq'. heapifyUp f pq index = Inr pq' \<and> same_frame pq pq'"
proof (induction f pq index rule: heapifyUp.induct)
  case (1 f pq index)
  let ?p = "(index - 1) sdiv 2"
  have p: "0 \<le> ?p" "?p < int (length (events pq))"
    using parent_bounds [of index] 1 by auto
  show ?case
  proof (cases "moves_up f (priority (events pq ! nat index)) (priority (events pq ! nat ?p))")
    case False
    then show ?thesis
      using p 1 by (subst heapifyUp.simps) (simp add: rd_in)
  next
    case True
    let ?a = "(events pq)[nat index := events pq ! nat ?p, nat ?p := events pq ! nat index]"
    have "\<exists>pq'. heapifyUp f (pq\<lparr>events := ?a\<rparr>) ?p = Inr pq' \<and> same_frame (pq\<lparr>events := ?a\<rparr>) pq'"
      using p 1 True by (intro "1.IH") (simp_all add: rd_in pq_swap_in)
    then obtain pq' where r: "heapifyUp f (pq\<lparr>events := ?a\<rparr>) ?p = Inr pq'"
      and fr: "same_frame (pq\<lparr>events := ?a\<rparr>) pq'" by blast
    have "heapifyUp f pq index = Inr pq'"
      using p 1 True r by (subst heapifyUp.simps) (simp add: rd_in pq_swap_in)
    moreover have "same_frame pq pq'"
      using fr by (rule same_frame_step [rotated]) simp
    ultimately show ?thesis by blast
  qed
qed

lemma pick_child_returns:
  assumes "0 \<le> s" and "s \<le> c" and "pq_size pq \<le> int (length (events pq))"
  shows "\<exists>r. pick_child f pq c s = Inr r \<and> (r = s \<or> r = c \<and> c < pq_size pq)"
  using assms by (simp add: pick_child_def rd_in)

lemma heapifyDown_returns:
  "0 \<le> index \<Longrightarrow> pq_size pq \<le> int (length (events pq)) \<Longrightarrow>
   \<exists>pq'. heapifyDown f pq index = Inr pq' \<and> same_frame pq pq'"
proof (induction f pq index rule: heapifyDown.induct)
  case (1 f pq index)
  obtain s1 where s1: "pick_child f pq (2 * index + 1) index = Inr s1"
    and s1c: "s1 = index \<or> s1 = 2 * index + 1 \<and> 2 * index + 1 < pq_size pq"
    using pick_child_returns [of index "2 * index + 1" pq f] 1 by auto
  obtain s where s: "pick_child f pq (2 * index + 2) s1 = Inr s"
    and sc: "s = s1 \<or> s = 2 * index + 2 \<and> 2 * index + 2 < pq_size pq"
    using pick_child_returns [of s1 "2 * index + 2" pq f] 1 s1c by auto
  show ?case
  proof (cases "s = index")
    case True
    then show ?thesis
      using s1 s by (subst heapifyDown.simps) simp
  next
    case False
    then have b: "0 \<le> s" "s < int (length (events pq))" "index < int (length (events pq))"
      using s1c sc 1 by auto
    let ?a = "(events pq)[nat index := events pq ! nat s, nat s := events pq ! nat index]"
    have sw: "pq_swap (events pq) index s = Inr ?a"
      using b 1 by (simp add: pq_swap_in)
    have "\<exists>pq'. heapifyDown f (pq\<lparr>events := ?a\<rparr>) s = Inr pq' \<and> same_frame (pq\<lparr>events := ?a\<rparr>) pq'"
      using s1 s False sw b 1 by (intro "1.IH") simp_all
    then obtain pq' where r: "heapifyDown f (pq\<lparr>events := ?a\<rparr>) s = Inr pq'"
      and fr: "same_frame (pq\<lparr>events := ?a\<rparr>) pq'" by blast
    have "heapifyDown f pq index = Inr pq'"
      using s1 s False sw r by (subst heapifyDown.simps) simp
    moreover have "same_frame pq pq'"
      using fr by (rule same_frame_step [rotated]) simp
    ultimately show ?thesis by blast
  qed
qed



lemma take_cases:
  "xSemaphoreTake s t = Inl BlocksForever
   \<or> xSemaphoreTake s t = Inr (pdFALSE, s)
   \<or> (0 < uxMessagesWaiting s \<and>
       xSemaphoreTake s t = Inr (pdTRUE, s\<lparr>uxMessagesWaiting := uxMessagesWaiting s - 1\<rparr>))"
  by (simp add: xSemaphoreTake_def)

lemma take_forever_cases:
  "xSemaphoreTake s portMAX_DELAY = Inl BlocksForever
   \<or> xSemaphoreTake s portMAX_DELAY =
       Inr (pdTRUE, s\<lparr>uxMessagesWaiting := uxMessagesWaiting s - 1\<rparr>)"
  by (simp add: xSemaphoreTake_def)

lemma pd_distinct [simp]: "pdTRUE \<noteq> pdFALSE" "pdFALSE \<noteq> pdTRUE" "pdPASS \<noteq> pdFAIL" "pdFAIL \<noteq> pdPASS"
  by (simp_all add: sem_defs)

text \<open>The part of a send that runs once the mutex is taken and the queue has room.\<close>

lemma send_insert_returns:
  assumes "wf_queue pq" and "pq_size pq < PQ_MAX_EVENT_SIZE"
  shows "\<exists>pq'. heapifyUp f (pq\<lparr>events := (events pq)[nat (pq_size pq) := e],
                                  pq_size := pq_size pq + 1\<rparr>) (pq_size pq) = Inr pq'
           \<and> same_frame (pq\<lparr>events := (events pq)[nat (pq_size pq) := e],
                               pq_size := pq_size pq + 1\<rparr>) pq'"
  using assms by (intro heapifyUp_returns) (simp_all add: wf_queue_def)

lemma send_cases:
  assumes "wf_queue pq"
  shows "xPriorityQueueSend f pq e t = Inl BlocksForever
     \<or> (\<exists>pq'. xPriorityQueueSend f pq e t = Inr (pdFAIL, pq') \<and> wf_queue pq'
            \<and> pq_size pq' = pq_size pq)
     \<or> (\<exists>pq'. xPriorityQueueSend f pq e t = Inr (pdPASS, pq') \<and> wf_queue pq'
            \<and> pq_size pq' = pq_size pq + 1)"
proof -
  let ?m = "(mutex pq)\<lparr>uxMessagesWaiting := uxMessagesWaiting (mutex pq) - 1\<rparr>"
  consider (blocked) "xSemaphoreTake (mutex pq) t = Inl BlocksForever"
    | (timeout) "xSemaphoreTake (mutex pq) t = Inr (pdFALSE, mutex pq)"
    | (taken) "xSemaphoreTake (mutex pq) t = Inr (pdTRUE, ?m)"
    using take_cases [of "mutex pq" t] by auto
  then show ?thesis
  proof cases
    case blocked
    then show ?thesis by (simp add: xPriorityQueueSend_def)
  next
    case timeout
    then show ?thesis using assms by (simp add: xPriorityQueueSend_def wf_queue_def)
  next
    case taken
    show ?thesis
    proof (cases "PQ_MAX_EVENT_SIZE \<le> pq_size pq")
      case True
      then show ?thesis using assms taken by (simp add: xPriorityQueueSend_def wf_queue_def)
    next
      case False
      let ?pq1 = "pq\<lparr>mutex := ?m\<rparr>"
      have wf1: "wf_queue ?pq1" using assms by (simp add: wf_queue_def)
      have lt: "pq_size ?pq1 < PQ_MAX_EVENT_SIZE" using False by simp
      obtain pq' where up: "heapifyUp f (?pq1\<lparr>events := (events ?pq1)[nat (pq_size ?pq1) := e],
                                  pq_size := pq_size ?pq1 + 1\<rparr>) (pq_size ?pq1) = Inr pq'"
        and fr: "same_frame (?pq1\<lparr>events := (events ?pq1)[nat (pq_size ?pq1) := e],
                               pq_size := pq_size ?pq1 + 1\<rparr>) pq'"
        using send_insert_returns [OF wf1 lt, of f e] by blast
      have wr: "wr (events pq) (pq_size pq) e = Inr ((events pq)[nat (pq_size pq) := e])"
        using assms False by (simp add: wr_in wf_queue_def)
      have sz: "pq_size pq' = pq_size pq + 1" and len: "length (events pq') = length (events pq)"
        using fr by (simp_all add: same_frame_def)
      show ?thesis
        using False taken wr up assms sz len
        by (simp add: xPriorityQueueSend_def wf_queue_def)
    qed
  qed
qed


lemma receive_locked_returns:
  assumes "wf_queue pq"
  shows "\<exists>out pq'. receive_locked f pq = Inr (out, pq') \<and> wf_queue pq'
           \<and> mutex pq' = mutex pq \<and> eventSemaphore pq' = eventSemaphore pq
           \<and> (if 0 < pq_size pq then out = Some (events pq ! 0) \<and> pq_size pq' = pq_size pq - 1
               else out = None \<and> pq' = pq)"
proof (cases "0 < pq_size pq")
  case False
  then show ?thesis using assms by (simp add: receive_locked_def)
next
  case True
  let ?a = "(events pq)[0 := events pq ! nat (pq_size pq - 1)]"
  let ?pq1 = "pq\<lparr>events := ?a, pq_size := pq_size pq - 1\<rparr>"
  have "\<exists>pq'. heapifyDown f ?pq1 0 = Inr pq' \<and> same_frame ?pq1 pq'"
    using assms by (intro heapifyDown_returns) (simp_all add: wf_queue_def)
  then obtain pq' where d: "heapifyDown f ?pq1 0 = Inr pq'" and fr: "same_frame ?pq1 pq'"
    by blast
  have "receive_locked f pq = Inr (Some (events pq ! 0), pq')"
    using True assms d by (simp add: receive_locked_def rd_in wr_in wf_queue_def PQ_MAX_EVENT_SIZE_def)
  moreover have "wf_queue pq'" "pq_size pq' = pq_size pq - 1" "mutex pq' = mutex pq"
    "eventSemaphore pq' = eventSemaphore pq"
    using fr assms True by (simp_all add: same_frame_def wf_queue_def)
  ultimately show ?thesis using True by simp
qed

lemma receive_cases:
  assumes "wf_queue pq"
  shows "xPriorityQueueReceive f pq t = Inl BlocksForever
     \<or> (\<exists>pq'. xPriorityQueueReceive f pq t = Inr (pdFAIL, None, pq') \<and> wf_queue pq'
            \<and> pq_size pq' = pq_size pq)
     \<or> (\<exists>out pq'. xPriorityQueueReceive f pq t = Inr (pdPASS, out, pq') \<and> wf_queue pq'
            \<and> 0 < uxMessagesWaiting (eventSemaphore pq)
            \<and> (if 0 < pq_size pq then out = Some (events pq ! 0) \<and> pq_size pq' = pq_size pq - 1
                else out = None \<and> pq_size pq' = pq_size pq))"
proof -
  let ?s = "(eventSemaphore pq)\<lparr>uxMessagesWaiting := uxMessagesWaiting (eventSemaphore pq) - 1\<rparr>"
  consider (blocked) "xSemaphoreTake (eventSemaphore pq) t = Inl BlocksForever"
    | (timeout) "xSemaphoreTake (eventSemaphore pq) t = Inr (pdFALSE, eventSemaphore pq)"
    | (signalled) "0 < uxMessagesWaiting (eventSemaphore pq)"
        "xSemaphoreTake (eventSemaphore pq) t = Inr (pdTRUE, ?s)"
    using take_cases [of "eventSemaphore pq" t] by auto
  then show ?thesis
  proof cases
    case blocked
    then show ?thesis by (cases f) simp_all
  next
    case timeout
    then show ?thesis using assms by (cases f) (simp_all add: wf_queue_def)
  next
    case signalled
    let ?pq1 = "pq\<lparr>eventSemaphore := ?s\<rparr>"
    let ?m = "(mutex pq)\<lparr>uxMessagesWaiting := uxMessagesWaiting (mutex pq) - 1\<rparr>"
    have wf1: "wf_queue ?pq1" using assms by (simp add: wf_queue_def)
    show ?thesis
    proof (cases f)
      case App_src
      consider (blocked) "xSemaphoreTake (mutex pq) portMAX_DELAY = Inl BlocksForever"
        | (taken) "xSemaphoreTake (mutex pq) portMAX_DELAY = Inr (pdTRUE, ?m)"
        using take_forever_cases [of "mutex pq"] by auto
      then show ?thesis
      proof cases
        case blocked
        then show ?thesis using App_src signalled by simp
      next
        case taken
        have wf2: "wf_queue (?pq1\<lparr>mutex := ?m\<rparr>)" using assms by (simp add: wf_queue_def)
        from receive_locked_returns [OF wf2, of App_src]
        show ?thesis using App_src signalled taken
          by (auto simp: wf_queue_def split: if_splits)
      qed
    next
      case Part_001
      consider (blocked) "xSemaphoreTake (mutex pq) 10 = Inl BlocksForever"
        | (timeout) "xSemaphoreTake (mutex pq) 10 = Inr (pdFALSE, mutex pq)"
        | (taken) "xSemaphoreTake (mutex pq) 10 = Inr (pdTRUE, ?m)"
        using take_cases [of "mutex pq" 10] by auto
      then show ?thesis
      proof cases
        case blocked
        then show ?thesis using Part_001 signalled by simp
      next
        case timeout
        then show ?thesis using Part_001 signalled assms by (simp add: wf_queue_def)
      next
        case taken
        have wf2: "wf_queue (?pq1\<lparr>mutex := ?m\<rparr>)" using assms by (simp add: wf_queue_def)
        from receive_locked_returns [OF wf2, of Part_001]
        show ?thesis using Part_001 signalled taken
          by (auto simp: wf_queue_def split: if_splits)
      qed
    qed
  qed
qed

section \<open>Creation\<close>

text \<open>
  Claim C3: \<^verbatim>\<open>create()\<close> returns a queue of size 0 whose counting semaphore starts at
  0, so that a receiver finds no event until a send has signalled one.
  \<^verbatim>\<open>app/src/priority_queue.c\<close> does not do that: it creates the semaphore with
  \<^verbatim>\<open>xSemaphoreCreateCounting(PQ_MAX_EVENT_SIZE, PQ_MAX_EVENT_SIZE)\<close>. The queue it returns
  has size 0 and a count of 10, and a receive made at once passes the wait and returns
  \<^verbatim>\<open>pdPASS\<close> without storing an event.
\<close>

theorem create_app_src_start_count:
  "fst (xPriorityQueueCreate App_src (all_ok raw)) =
     Some \<lparr>events = raw, pq_size = 0, mutex = \<lparr>uxMessagesWaiting = 1, uxLength = 1\<rparr>,
           eventSemaphore = \<lparr>uxMessagesWaiting = 10, uxLength = 10\<rparr>\<rparr>
   \<and> scenario App_src (all_ok raw) [Receive 0] =
     Some (Inr ([Received pdPASS None],
       \<lparr>events = raw, pq_size = 0, mutex = \<lparr>uxMessagesWaiting = 1, uxLength = 1\<rparr>,
        eventSemaphore = \<lparr>uxMessagesWaiting = 9, uxLength = 10\<rparr>\<rparr>))"
  by (simp add: create_all_ok scenario_def PQ_MAX_EVENT_SIZE_def sem_defs receive_locked_def)

text \<open>
  \<^verbatim>\<open>part_001\<close> passes 0 as the start count: the queue it returns is empty for a
  receiver, whose wait expires.
\<close>

lemma create_part_001_start_count:
  "fst (xPriorityQueueCreate Part_001 (all_ok raw)) =
     Some \<lparr>events = raw, pq_size = 0, mutex = \<lparr>uxMessagesWaiting = 1, uxLength = 1\<rparr>,
           eventSemaphore = \<lparr>uxMessagesWaiting = 0, uxLength = 10\<rparr>\<rparr>
   \<and> scenario Part_001 (all_ok raw) [Receive 0] =
     Some (Inr ([Received pdFAIL None],
       \<lparr>events = raw, pq_size = 0, mutex = \<lparr>uxMessagesWaiting = 1, uxLength = 1\<rparr>,
        eventSemaphore = \<lparr>uxMessagesWaiting = 0, uxLength = 10\<rparr>\<rparr>))"
  by (simp add: create_all_ok scenario_def PQ_MAX_EVENT_SIZE_def sem_defs receive_locked_def)

text \<open>
  Claim C8: a failed \<^verbatim>\<open>create()\<close> returns \<^verbatim>\<open>NULL\<close> and leaves nothing allocated; in
  particular the mutex is released when the counting semaphore cannot be created.
  Both files only call \<^verbatim>\<open>vPortFree(pq)\<close> on that path: the call returns \<^verbatim>\<open>NULL\<close> and
  the mutex stays allocated, with no handle left to delete it.
\<close>

theorem create_counting_failure_keeps_mutex:
  "xPriorityQueueCreate f (env\<lparr>malloc_ok := True, mutex_ok := True, counting_ok := False\<rparr>)
     = (None, [MutexObject])"
  by (simp add: xPriorityQueueCreate_def xSemaphoreCreateMutex_def
      xSemaphoreCreateCounting_def vPortFree_def)

text \<open>The two earlier failures leave nothing allocated.\<close>

lemma create_other_failures_free_all:
  "xPriorityQueueCreate f (env\<lparr>malloc_ok := False\<rparr>) = (None, [])"
  "xPriorityQueueCreate f (env\<lparr>malloc_ok := True, mutex_ok := False\<rparr>) = (None, [])"
  by (simp_all add: xPriorityQueueCreate_def xSemaphoreCreateMutex_def
      xSemaphoreCreateCounting_def vPortFree_def)

section \<open>Receiving from an empty queue\<close>

text \<open>
  Claim C5: a receive that passes the wait on the semaphore and then finds
  \<^verbatim>\<open>size == 0\<close> releases the mutex and returns a failure.
  Both files release the mutex and leave the array and \<^verbatim>\<open>size\<close> alone, but the
  \<^verbatim>\<open>return pdPASS\<close> stands after the \<^verbatim>\<open>if (0 < pq->size)\<close> block, not inside it: the
  call reports success and has stored nothing into \<^verbatim>\<open>*event\<close>.
\<close>

theorem receive_empty_reports_success:
  "xPriorityQueueReceive f
     \<lparr>events = raw, pq_size = 0, mutex = \<lparr>uxMessagesWaiting = 1, uxLength = 1\<rparr>,
      eventSemaphore = \<lparr>uxMessagesWaiting = Suc n, uxLength = 10\<rparr>\<rparr> t
   = Inr (pdPASS, None,
     \<lparr>events = raw, pq_size = 0, mutex = \<lparr>uxMessagesWaiting = 1, uxLength = 1\<rparr>,
      eventSemaphore = \<lparr>uxMessagesWaiting = n, uxLength = 10\<rparr>\<rparr>)
   \<and> pdPASS \<noteq> pdFAIL"
  by (cases f) (simp_all add: sem_defs receive_locked_def)

section \<open>Sending to a full queue\<close>

text \<open>
  Claim C4: on a queue with \<^verbatim>\<open>size == PQ_MAX_EVENT_SIZE\<close> a send fails and leaves the
  state as it was: the size, every stored event and both semaphores. A send that gets
  the mutex gives it back and returns \<^verbatim>\<open>pdFAIL\<close>; one that finds the mutex held returns
  \<^verbatim>\<open>pdFAIL\<close> once its wait expires, and does not return when the wait is
  \<^verbatim>\<open>portMAX_DELAY\<close>. No send on a full queue returns \<^verbatim>\<open>pdPASS\<close> or changes the state.
\<close>

theorem send_full_fails_unchanged:
  assumes "pq_size pq = PQ_MAX_EVENT_SIZE"
    and "uxMessagesWaiting (mutex pq) \<le> uxLength (mutex pq)"
  shows "xPriorityQueueSend f pq e t =
     (if uxMessagesWaiting (mutex pq) = 0 \<and> t = portMAX_DELAY then Inl BlocksForever
      else Inr (pdFAIL, pq))"
  using assms by (simp add: xPriorityQueueSend_def sem_defs)

theorem send_full_fails_unchanged_witness:
  "pq_size full_queue = PQ_MAX_EVENT_SIZE
   \<and> uxMessagesWaiting (mutex full_queue) \<le> uxLength (mutex full_queue)
   \<and> xPriorityQueueSend Part_001 full_queue (ev LOW_PRIORITY) 0 = Inr (pdFAIL, full_queue)
   \<and> xPriorityQueueSend App_src full_queue (ev LOW_PRIORITY) portMAX_DELAY =
         Inr (pdFAIL, full_queue)"
proof -
  have a: "pq_size full_queue = PQ_MAX_EVENT_SIZE"
    by (simp add: full_queue_def PQ_MAX_EVENT_SIZE_def)
  have b: "uxMessagesWaiting (mutex full_queue) \<le> uxLength (mutex full_queue)"
    by (simp add: full_queue_def)
  have c: "uxMessagesWaiting (mutex full_queue) \<noteq> 0"
    by (simp add: full_queue_def)
  show ?thesis
    using a b c send_full_fails_unchanged [OF a b, of Part_001 "ev LOW_PRIORITY" 0]
      send_full_fails_unchanged [OF a b, of App_src "ev LOW_PRIORITY" portMAX_DELAY]
    by simp
qed

section \<open>Array accesses\<close>

text \<open>
  Claim C9: with \<^verbatim>\<open>0 <= size <= PQ_MAX_EVENT_SIZE\<close> no access of a send or of a receive
  leaves the array, and the two walks started at an index below \<^verbatim>\<open>size\<close> touch cells
  below \<^verbatim>\<open>size\<close> only: they return without fault on an array of any length that is at
  least \<^verbatim>\<open>size\<close>, so also on one cut at \<^verbatim>\<open>size\<close>.
\<close>

theorem accesses_within_bounds:
  "(wf_queue pq \<longrightarrow>
      xPriorityQueueSend f pq e t \<noteq> Inl OutOfBounds \<and>
      xPriorityQueueReceive f pq t \<noteq> Inl OutOfBounds)
   \<and> (0 \<le> i \<and> i < pq_size pq \<and> pq_size pq \<le> int (length (events pq)) \<longrightarrow>
      (\<exists>pq'. heapifyUp f pq i = Inr pq') \<and> (\<exists>pq'. heapifyDown f pq i = Inr pq'))"
proof -
  have "xPriorityQueueSend f pq e t \<noteq> Inl OutOfBounds" if "wf_queue pq"
    using send_cases [OF that, of f e t] by auto
  moreover have "xPriorityQueueReceive f pq t \<noteq> Inl OutOfBounds" if "wf_queue pq"
    using receive_cases [OF that, of f t] by auto
  moreover have "\<exists>pq'. heapifyUp f pq i = Inr pq'"
    if "0 \<le> i" "i < pq_size pq" "pq_size pq \<le> int (length (events pq))"
    using heapifyUp_returns [of i pq f] that by auto
  moreover have "\<exists>pq'. heapifyDown f pq i = Inr pq'"
    if "0 \<le> i" "pq_size pq \<le> int (length (events pq))"
    using heapifyDown_returns [of i pq f] that by auto
  ultimately show ?thesis by blast
qed

theorem accesses_within_bounds_witness:
  "wf_queue (three_queue\<lparr>events := replicate 10 (ev LOW_PRIORITY)\<rparr>)
   \<and> xPriorityQueueSend Part_001 (three_queue\<lparr>events := replicate 10 (ev LOW_PRIORITY)\<rparr>)
         (ev HIGH_PRIORITY) 0 \<noteq> Inl OutOfBounds
   \<and> xPriorityQueueReceive Part_001 (three_queue\<lparr>events := replicate 10 (ev LOW_PRIORITY)\<rparr>) 0
         \<noteq> Inl OutOfBounds
   \<and> (0::int) \<le> 2 \<and> 2 < pq_size three_queue
   \<and> pq_size three_queue \<le> int (length (events three_queue))
   \<and> (\<exists>pq'. heapifyUp Part_001 three_queue 2 = Inr pq')
   \<and> (\<exists>pq'. heapifyDown Part_001 three_queue 2 = Inr pq')"
proof -
  have a: "wf_queue (three_queue\<lparr>events := replicate 10 (ev LOW_PRIORITY)\<rparr>)"
    by (simp add: wf_queue_def three_queue_def PQ_MAX_EVENT_SIZE_def)
  have b: "(0::int) \<le> 2 \<and> 2 < pq_size three_queue
      \<and> pq_size three_queue \<le> int (length (events three_queue))"
    by (simp add: three_queue_def)
  show ?thesis
    using a b
      accesses_within_bounds [of "three_queue\<lparr>events := replicate 10 (ev LOW_PRIORITY)\<rparr>"
        Part_001 "ev HIGH_PRIORITY" 0 0]
      accesses_within_bounds [of three_queue Part_001 "ev HIGH_PRIORITY" 0 2]
    by simp
qed

section \<open>Termination\<close>

text \<open>
  Claim C10: both walks terminate from every starting index. Every argument is in the
  domain of the recursion of \<^verbatim>\<open>_heapifyUp\<close> and of \<^verbatim>\<open>_heapifyDown\<close>. The reasons
  are the ones the claim gives: above the root the parent index is smaller; at the root
  \<^verbatim>\<open>(0 - 1) / 2\<close> is 0 and the strict comparison of the root with itself is false, so
  the walk returns at once; and the index \<^verbatim>\<open>_heapifyDown\<close> moves to is larger and
  below \<^verbatim>\<open>size\<close>.
\<close>

theorem heap_walks_terminate:
  "heapifyUp_dom (f, pq, index) \<and> heapifyDown_dom (f, pq, index)
   \<and> (0 < index \<longrightarrow> 0 \<le> (index - 1) sdiv 2 \<and> (index - 1) sdiv 2 < index)
   \<and> ((0::int) - 1) sdiv 2 = 0 \<and> \<not> moves_up f p p
   \<and> (events pq \<noteq> [] \<longrightarrow> heapifyUp f pq 0 = Inr pq)
   \<and> (\<forall>s1 s. pick_child f pq (2 * index + 1) index = Inr s1
          \<and> pick_child f pq (2 * index + 2) s1 = Inr s \<and> s \<noteq> index
        \<longrightarrow> index < s \<and> s < pq_size pq)"
proof -
  have "heapifyUp_dom (f, pq, index)" "heapifyDown_dom (f, pq, index)"
    using heapifyUp_total heapifyDown_total by auto
  moreover have "0 \<le> (index - 1) sdiv 2 \<and> (index - 1) sdiv 2 < index" if "0 < index"
    using that parent_bounds [of index] parent_less [of index] by simp
  moreover have "((0::int) - 1) sdiv 2 = 0" by simp
  moreover have "heapifyUp f pq 0 = Inr pq" if "events pq \<noteq> []"
    using that by (subst heapifyUp.simps) (simp add: rd_def)
  moreover have "\<forall>s1 s. pick_child f pq (2 * index + 1) index = Inr s1
          \<and> pick_child f pq (2 * index + 2) s1 = Inr s \<and> s \<noteq> index
        \<longrightarrow> index < s \<and> s < pq_size pq"
    using heapifyDown_descends [of f pq index] by blast
  ultimately show ?thesis
    using moves_up_irrefl [of f p] by blast
qed

theorem heap_walks_terminate_witness:
  "heapifyUp_dom (Part_001, three_queue, 2) \<and> heapifyDown_dom (Part_001, three_queue, 0)
   \<and> (0::int) < 2 \<and> (0::int) \<le> (2 - 1) sdiv 2 \<and> ((2::int) - 1) sdiv 2 < 2
   \<and> events three_queue \<noteq> [] \<and> heapifyUp Part_001 three_queue 0 = Inr three_queue
   \<and> pick_child Part_001 three_queue (2 * 0 + 1) 0 = Inr 1
   \<and> pick_child Part_001 three_queue (2 * 0 + 2) 1 = Inr 2 \<and> (2::int) \<noteq> 0
   \<and> (0::int) < 2 \<and> 2 < pq_size three_queue"
proof -
  have a: "events three_queue \<noteq> []" by (simp add: three_queue_def)
  have b: "pick_child Part_001 three_queue (2 * 0 + 1) 0 = Inr 1"
    by (simp add: pick_child_def three_queue_def rd_def ev_def)
  have c: "pick_child Part_001 three_queue (2 * 0 + 2) 1 = Inr 2"
    by (simp add: pick_child_def three_queue_def rd_def ev_def)
  show ?thesis
    using a b c
      heap_walks_terminate [where f = Part_001 and pq = three_queue and index = 2
        and p = HIGH_PRIORITY]
      heap_walks_terminate [where f = Part_001 and pq = three_queue and index = 0
        and p = HIGH_PRIORITY]
    by simp
qed

section \<open>The value a failed send returns\<close>

text \<open>
  Claim C6, as stated: a send that fails because the queue is full returns a value
  different from the one of a send that fails because the wait for the mutex expired.
  It does not: both files return \<^verbatim>\<open>pdFAIL\<close> on both paths, as \<^verbatim>\<open>priority_queue.h\<close>
  documents (\<^verbatim>\<open>pdPASS\<close> if the event was sent, \<^verbatim>\<open>pdFAIL\<close> otherwise).
\<close>

theorem send_failures_counterexample:
  "\<not> (send_returns App_src full_queue (ev LOW_PRIORITY) 0
        \<noteq> send_returns App_src held_queue (ev LOW_PRIORITY) 0)
   \<and> \<not> (send_returns Part_001 full_queue (ev LOW_PRIORITY) 0
        \<noteq> send_returns Part_001 held_queue (ev LOW_PRIORITY) 0)"
  by (simp add: send_returns_def xPriorityQueueSend_def full_queue_def held_queue_def sem_defs
      PQ_MAX_EVENT_SIZE_def)

text \<open>
  Claim C6, amended: a send returns \<^verbatim>\<open>pdFAIL\<close> when the queue is full and when the
  wait for the mutex expires, and \<^verbatim>\<open>pdPASS\<close>, a different value, when it stored
  the event: the returned value tells success from failure and nothing more.
\<close>

theorem send_failures_share_pdFAIL:
  "(pq_size pq = PQ_MAX_EVENT_SIZE \<and> mutex_free pq \<longrightarrow> send_returns f pq e t = Inr pdFAIL)
   \<and> (uxMessagesWaiting (mutex pq) = 0 \<and> t \<noteq> portMAX_DELAY \<longrightarrow>
        send_returns f pq e t = Inr pdFAIL)
   \<and> (wf_queue pq \<and> pq_size pq < PQ_MAX_EVENT_SIZE \<and> mutex_free pq \<longrightarrow>
        send_returns f pq e t = Inr pdPASS)
   \<and> pdPASS \<noteq> pdFAIL"
proof -
  have "send_returns f pq e t = Inr pdFAIL" if "pq_size pq = PQ_MAX_EVENT_SIZE" "mutex_free pq"
    using that by (simp add: send_returns_def xPriorityQueueSend_def mutex_free_def sem_defs)
  moreover have "send_returns f pq e t = Inr pdFAIL"
    if "uxMessagesWaiting (mutex pq) = 0" "t \<noteq> portMAX_DELAY"
    using that by (simp add: send_returns_def xPriorityQueueSend_def xSemaphoreTake_def pdTRUE_def pdFALSE_def)
  moreover have "send_returns f pq e t = Inr pdPASS"
    if wf: "wf_queue pq" and lt: "pq_size pq < PQ_MAX_EVENT_SIZE" and fr: "mutex_free pq"
  proof -
    let ?pq1 = "pq\<lparr>mutex := \<lparr>uxMessagesWaiting = 0, uxLength = 1\<rparr>\<rparr>"
    have wf1: "wf_queue ?pq1" using wf by (simp add: wf_queue_def)
    have lt1: "pq_size ?pq1 < PQ_MAX_EVENT_SIZE" using lt by simp
    obtain pq' where "heapifyUp f (?pq1\<lparr>events := (events ?pq1)[nat (pq_size ?pq1) := e],
                                  pq_size := pq_size ?pq1 + 1\<rparr>) (pq_size ?pq1) = Inr pq'"
      using send_insert_returns [OF wf1 lt1, of f e] by blast
    then show ?thesis
      using wf lt fr
      by (simp add: send_returns_def xPriorityQueueSend_def mutex_free_def xSemaphoreTake_def
          pdTRUE_def wr_in wf_queue_def)
  qed
  ultimately show ?thesis by simp
qed

theorem send_failures_share_pdFAIL_witness:
  "pq_size full_queue = PQ_MAX_EVENT_SIZE \<and> mutex_free full_queue
   \<and> send_returns Part_001 full_queue (ev LOW_PRIORITY) 0 = Inr pdFAIL
   \<and> uxMessagesWaiting (mutex held_queue) = 0 \<and> (0 :: TickType_t) \<noteq> portMAX_DELAY
   \<and> send_returns Part_001 held_queue (ev LOW_PRIORITY) 0 = Inr pdFAIL
   \<and> wf_queue (held_queue\<lparr>mutex := mutex full_queue\<rparr>)
   \<and> pq_size (held_queue\<lparr>mutex := mutex full_queue\<rparr>) < PQ_MAX_EVENT_SIZE
   \<and> mutex_free (held_queue\<lparr>mutex := mutex full_queue\<rparr>)
   \<and> send_returns Part_001 (held_queue\<lparr>mutex := mutex full_queue\<rparr>) (ev LOW_PRIORITY) 0 = Inr pdPASS"
proof -
  have a: "pq_size full_queue = PQ_MAX_EVENT_SIZE \<and> mutex_free full_queue"
    by (simp add: full_queue_def PQ_MAX_EVENT_SIZE_def mutex_free_def)
  have b: "uxMessagesWaiting (mutex held_queue) = 0 \<and> (0 :: TickType_t) \<noteq> portMAX_DELAY"
    by (simp add: held_queue_def portMAX_DELAY_def)
  have c: "wf_queue (held_queue\<lparr>mutex := mutex full_queue\<rparr>)
     \<and> pq_size (held_queue\<lparr>mutex := mutex full_queue\<rparr>) < PQ_MAX_EVENT_SIZE
     \<and> mutex_free (held_queue\<lparr>mutex := mutex full_queue\<rparr>)"
    by (simp add: held_queue_def full_queue_def wf_queue_def PQ_MAX_EVENT_SIZE_def mutex_free_def)
  show ?thesis
    using a b c
      send_failures_share_pdFAIL [where pq = full_queue and f = Part_001
        and e = "ev LOW_PRIORITY" and t = 0]
      send_failures_share_pdFAIL [where pq = held_queue and f = Part_001
        and e = "ev LOW_PRIORITY" and t = 0]
      send_failures_share_pdFAIL [where pq = "held_queue\<lparr>mutex := mutex full_queue\<rparr>"
        and f = Part_001 and e = "ev LOW_PRIORITY" and t = 0]
    by simp
qed

section \<open>Both walks restore the order of the heap\<close>

text \<open>
  The lemmas of this section hold for both files, each with its own comparison: the
  order is the one of \<open>rank f\<close>, highest priority first in \<^verbatim>\<open>part_001\<close>, lowest
  priority first in \<^verbatim>\<open>app/src/priority_queue.c\<close>.
\<close>

lemma swapf_apply: "swapf k i j c = (if c = j then k i else if c = i then k j else k c)"
  by (simp add: swapf_def)

lemma par_iff: "par c = i \<longleftrightarrow> c = 2 * i + 1 \<or> c = 2 * i + 2"
  unfolding par_def by linarith

lemma par_lt: "0 < c \<Longrightarrow> par c < c"
  unfolding par_def by linarith

lemma par_ge: "0 < c \<Longrightarrow> 0 \<le> par c"
  unfolding par_def by linarith

lemma up_invD1: "up_inv k n i \<Longrightarrow> 0 < c \<Longrightarrow> c < n \<Longrightarrow> c \<noteq> i \<Longrightarrow> k c \<le> k (par c)"
  unfolding up_inv_def by blast

lemma up_invD2:
  "up_inv k n i \<Longrightarrow> 0 < c \<Longrightarrow> c < n \<Longrightarrow> par c = i \<Longrightarrow> 0 < i \<Longrightarrow> k c \<le> k (par i)"
  unfolding up_inv_def by blast

lemma down_invD1: "down_inv k n i \<Longrightarrow> 0 < c \<Longrightarrow> c < n \<Longrightarrow> par c \<noteq> i \<Longrightarrow> k c \<le> k (par c)"
  unfolding down_inv_def by blast

lemma down_invD2:
  "down_inv k n i \<Longrightarrow> 0 < c \<Longrightarrow> c < n \<Longrightarrow> par c = i \<Longrightarrow> 0 < i \<Longrightarrow> k c \<le> k (par i)"
  unfolding down_inv_def by blast

lemma up_done:
  assumes "up_inv k n i" and "i \<le> 0 \<or> k i \<le> k (par i)"
  shows "heap_ord k n"
  unfolding heap_ord_def
proof (intro allI impI)
  fix c assume c: "0 < c \<and> c < n"
  show "k c \<le> k (par c)"
  proof (cases "c = i")
    case True
    then show ?thesis using assms(2) c by auto
  next
    case False
    then show ?thesis using up_invD1 [OF assms(1)] c by blast
  qed
qed


lemma up_step:
  assumes inv: "up_inv k n i" and i: "0 < i" "i < n" and lt: "k (par i) < k i"
  shows "up_inv (swapf k i (par i)) n (par i)"
proof -
  let ?p = "par i"
  let ?k = "swapf k i ?p"
  have p: "?p < i" "0 \<le> ?p" using i par_lt par_ge by auto
  have A: "?k c \<le> ?k (par c)" if c: "0 < c" "c < n" "c \<noteq> ?p" for c
  proof (cases "c = i")
    case True
    then show ?thesis using lt p by (simp add: swapf_apply)
  next
    case False
    have old: "k c \<le> k (par c)" using up_invD1 [OF inv c(1,2) False] .
    have kc: "?k c = k c" using False c(3) by (simp add: swapf_apply)
    show ?thesis
    proof (cases "par c = i")
      case True
      have "k c \<le> k ?p" using up_invD2 [OF inv c(1,2) True i(1)] .
      then show ?thesis using True kc p by (simp add: swapf_apply)
    next
      case ni: False
      show ?thesis
      proof (cases "par c = ?p")
        case True
        then show ?thesis using old lt kc by (simp add: swapf_apply)
      next
        case False
        then show ?thesis using old ni kc by (simp add: swapf_apply)
      qed
    qed
  qed
  have B: "?k c \<le> ?k (par ?p)" if c: "0 < c" "c < n" "par c = ?p" "0 < ?p" for c
  proof -
    have pp: "par ?p < ?p" using c(4) par_lt by blast
    have gp: "k ?p \<le> k (par ?p)"
      using up_invD1 [OF inv c(4)] p i by simp
    have kpp: "?k (par ?p) = k (par ?p)"
      using pp p by (simp add: swapf_apply)
    show ?thesis
    proof (cases "c = i")
      case True
      then show ?thesis using gp kpp p by (simp add: swapf_apply)
    next
      case False
      have "c \<noteq> ?p" using c(1,3) par_lt [of c] by auto
      moreover have "k c \<le> k (par c)" using up_invD1 [OF inv c(1,2) False] .
      ultimately show ?thesis using gp kpp False c(3) by (simp add: swapf_apply)
    qed
  qed
  show ?thesis unfolding up_inv_def using A B by blast
qed

lemma down_done:
  assumes "down_inv k n i"
    and "2 * i + 1 < n \<longrightarrow> k (2 * i + 1) \<le> k i" and "2 * i + 2 < n \<longrightarrow> k (2 * i + 2) \<le> k i"
  shows "heap_ord k n"
  unfolding heap_ord_def
proof (intro allI impI)
  fix c assume c: "0 < c \<and> c < n"
  show "k c \<le> k (par c)"
  proof (cases "par c = i")
    case True
    then have "c = 2 * i + 1 \<or> c = 2 * i + 2" by (simp add: par_iff)
    then show ?thesis using assms(2,3) c True by auto
  next
    case False
    then show ?thesis using down_invD1 [OF assms(1)] c by blast
  qed
qed

lemma down_step:
  assumes inv: "down_inv k n i" and i: "0 \<le> i" and s: "s = 2 * i + 1 \<or> s = 2 * i + 2" "s < n"
    and lt: "k i < k s"
    and l: "2 * i + 1 < n \<longrightarrow> k (2 * i + 1) \<le> k s"
    and r: "2 * i + 2 < n \<longrightarrow> k (2 * i + 2) \<le> k s"
  shows "down_inv (swapf k i s) n s"
proof -
  let ?k = "swapf k i s"
  have ps: "par s = i" using s by (simp add: par_iff)
  have si: "i < s" "0 < s" using s i by auto
  have A: "?k c \<le> ?k (par c)" if c: "0 < c" "c < n" "par c \<noteq> s" for c
  proof (cases "c = s")
    case True
    then show ?thesis using lt ps si by (simp add: swapf_apply)
  next
    case cs: False
    show ?thesis
    proof (cases "c = i")
      case True
      then have ip: "0 < i" using c by simp
      have "k s \<le> k (par i)" using down_invD2 [OF inv si(2) s(2) ps ip] .
      moreover have "par i \<noteq> i" "par i \<noteq> s"
        using ip par_lt [of i] si by auto
      ultimately show ?thesis using True si by (simp add: swapf_apply)
    next
      case ci: False
      show ?thesis
      proof (cases "par c = i")
        case True
        then have "c = 2 * i + 1 \<or> c = 2 * i + 2" by (simp add: par_iff)
        then have "k c \<le> k s" using l r c by auto
        then show ?thesis using True cs ci si by (simp add: swapf_apply)
      next
        case False
        have "k c \<le> k (par c)" using down_invD1 [OF inv c(1,2) False] .
        then show ?thesis using False c cs ci by (simp add: swapf_apply)
      qed
    qed
  qed
  have B: "?k c \<le> ?k (par s)" if c: "0 < c" "c < n" "par c = s" "0 < s" for c
  proof -
    have "s < c" using c par_lt [of c] by auto
    then have ne: "c \<noteq> s" "c \<noteq> i" using si by auto
    have "par c \<noteq> i" using c(3) si by simp
    then have "k c \<le> k (par c)" using down_invD1 [OF inv c(1,2)] by blast
    then show ?thesis using ps si c(3) ne by (simp add: swapf_apply)
  qed
  show ?thesis unfolding down_inv_def using A B by blast
qed

lemma heap_root_max:
  assumes "heap_ord k n"
  shows "0 \<le> c \<Longrightarrow> c < n \<Longrightarrow> k c \<le> k 0"
proof (induction "nat c" arbitrary: c rule: less_induct)
  case less
  show ?case
  proof (cases "c = 0")
    case True
    then show ?thesis by simp
  next
    case False
    then have c: "0 < c" using less.prems by simp
    have p: "par c < c" "0 \<le> par c" using c par_lt par_ge by auto
    have "k c \<le> k (par c)" using assms c less.prems by (simp add: heap_ord_def)
    moreover have "k (par c) \<le> k 0"
      using p less.prems by (intro less.hyps) auto
    ultimately show ?thesis by simp
  qed
qed


lemma moves_up_rank: "moves_up f p q \<longleftrightarrow> rank f q < rank f p"
  by (cases f) auto

lemma par_sdiv: "0 < i \<Longrightarrow> (i - 1) sdiv 2 = par i"
  by (simp add: parent_pos par_def)

lemma key_nth: "0 \<le> c \<Longrightarrow> key f a c = rank f (priority (a ! nat c))"
  by (simp add: key_def)

lemma key_swap:
  assumes "0 \<le> i" "i < int (length a)" "0 \<le> j" "j < int (length a)"
  shows "key f (a[nat i := a ! nat j, nat j := a ! nat i]) = swapf (key f a) i j"
proof
  fix c
  show "key f (a[nat i := a ! nat j, nat j := a ! nat i]) c = swapf (key f a) i j c"
  proof (cases "0 \<le> c")
    case False
    then show ?thesis using assms by (simp add: key_def swapf_apply)
  next
    case True
    then have "nat c = nat i \<longleftrightarrow> c = i" "nat c = nat j \<longleftrightarrow> c = j"
      using assms by auto
    then show ?thesis
      using True assms by (auto simp: key_def swapf_apply nth_list_update)
  qed
qed

lemma heapifyUp_sifts:
  "0 \<le> index \<Longrightarrow> index < n \<Longrightarrow> n \<le> int (length (events pq)) \<Longrightarrow>
   up_inv (key f (events pq)) n index \<Longrightarrow>
   \<exists>a'. heapifyUp f pq index = Inr (pq\<lparr>events := a'\<rparr>) \<and> length a' = length (events pq) \<and>
        heap_ord (key f a') n \<and> mset a' = mset (events pq) \<and>
        drop (nat n) a' = drop (nat n) (events pq)"
proof (induction f pq index rule: heapifyUp.induct)
  case (1 f pq index)
  let ?a = "events pq"
  let ?p = "(index - 1) sdiv 2"
  have p: "0 \<le> ?p" "?p \<le> index" using parent_bounds [of index] "1.prems" by auto
  have rdi: "rd ?a index = Inr (?a ! nat index)" and rdp: "rd ?a ?p = Inr (?a ! nat ?p)"
    using p "1.prems" by (simp_all add: rd_in)
  show ?case
  proof (cases "moves_up f (priority (?a ! nat index)) (priority (?a ! nat ?p))")
    case False
    have "index \<le> 0 \<or> key f ?a index \<le> key f ?a (par index)"
    proof (cases "0 < index")
      case True
      then show ?thesis
        using False p "1.prems" by (simp add: moves_up_rank key_nth par_sdiv [symmetric])
    qed simp
    then have "heap_ord (key f ?a) n" using "1.prems"(4) by (rule up_done [rotated])
    moreover have "heapifyUp f pq index = Inr (pq\<lparr>events := ?a\<rparr>)"
      using False p rdi rdp by (subst heapifyUp.simps) simp
    ultimately show ?thesis by blast
  next
    case True
    then have pos: "0 < index"
      using "1.prems" by (cases "index = 0") simp_all
    then have pp: "?p = par index" by (rule par_sdiv)
    let ?b = "?a[nat index := ?a ! nat ?p, nat ?p := ?a ! nat index]"
    have sw: "pq_swap ?a index ?p = Inr ?b"
      using p "1.prems" by (simp add: pq_swap_in)
    have lt: "key f ?a (par index) < key f ?a index"
      using True p pp "1.prems" by (simp add: moves_up_rank key_nth)
    have "up_inv (swapf (key f ?a) index (par index)) n (par index)"
      using "1.prems"(4) pos "1.prems"(2) lt by (rule up_step)
    then have inv': "up_inv (key f (events (pq\<lparr>events := ?b\<rparr>))) n ?p"
      using p pp "1.prems" by (simp add: key_swap)
    have "\<exists>a'. heapifyUp f (pq\<lparr>events := ?b\<rparr>) ?p = Inr (pq\<lparr>events := ?b\<rparr>\<lparr>events := a'\<rparr>) \<and>
        length a' = length (events (pq\<lparr>events := ?b\<rparr>)) \<and> heap_ord (key f a') n \<and>
        mset a' = mset (events (pq\<lparr>events := ?b\<rparr>)) \<and>
        drop (nat n) a' = drop (nat n) (events (pq\<lparr>events := ?b\<rparr>))"
      using p "1.prems" inv'
      by (intro "1.IH" [OF refl p(1) rdi rdp True sw]) simp_all
    then obtain a' where r: "heapifyUp f (pq\<lparr>events := ?b\<rparr>) ?p = Inr (pq\<lparr>events := a'\<rparr>)"
      and len: "length a' = length ?a" and ho: "heap_ord (key f a') n"
      and ms: "mset a' = mset ?b" and dr: "drop (nat n) a' = drop (nat n) ?b"
      by auto
    have "heapifyUp f pq index = Inr (pq\<lparr>events := a'\<rparr>)"
      using True p rdi rdp sw r by (subst heapifyUp.simps) simp
    moreover have "mset a' = mset ?a"
      using ms p "1.prems" by (simp add: mset_swap)
    moreover have "drop (nat n) a' = drop (nat n) ?a"
      using dr p "1.prems" by simp
    ultimately show ?thesis using len ho by blast
  qed
qed


lemma pick_child_spec:
  assumes "0 \<le> s" and "s \<le> c" and "pq_size pq \<le> int (length (events pq))"
  shows "pick_child f pq c s =
     Inr (if c < pq_size pq \<and> key f (events pq) s < key f (events pq) c then c else s)"
  using assms by (simp add: pick_child_def rd_in moves_up_rank key_nth)

lemma heapifyDown_sifts:
  "0 \<le> index \<Longrightarrow> pq_size pq \<le> int (length (events pq)) \<Longrightarrow>
   down_inv (key f (events pq)) (pq_size pq) index \<Longrightarrow>
   \<exists>a'. heapifyDown f pq index = Inr (pq\<lparr>events := a'\<rparr>) \<and> length a' = length (events pq) \<and>
        heap_ord (key f a') (pq_size pq) \<and> mset a' = mset (events pq) \<and>
        drop (nat (pq_size pq)) a' = drop (nat (pq_size pq)) (events pq)"
proof (induction f pq index rule: heapifyDown.induct)
  case (1 f pq index)
  let ?a = "events pq"
  let ?n = "pq_size pq"
  let ?k = "key f ?a"
  let ?l = "2 * index + 1"
  let ?r = "2 * index + 2"
  define s1 where "s1 = (if ?l < ?n \<and> ?k index < ?k ?l then ?l else index)"
  define s where "s = (if ?r < ?n \<and> ?k s1 < ?k ?r then ?r else s1)"
  have s1: "pick_child f pq ?l index = Inr s1"
    using "1.prems" by (simp add: pick_child_spec s1_def)
  have s1b: "0 \<le> s1" "s1 \<le> ?r" using "1.prems" by (auto simp: s1_def)
  have s: "pick_child f pq ?r s1 = Inr s"
    using "1.prems" s1b by (simp add: pick_child_spec s_def)
  show ?case
  proof (cases "s = index")
    case True
    then have "?l < ?n \<longrightarrow> ?k ?l \<le> ?k index" "?r < ?n \<longrightarrow> ?k ?r \<le> ?k index"
      using "1.prems" by (auto simp: s_def s1_def split: if_splits)
    then have "heap_ord ?k ?n" using "1.prems"(3) by (intro down_done [of ?k ?n index])
    moreover have "heapifyDown f pq index = Inr (pq\<lparr>events := ?a\<rparr>)"
      using s1 s True by (subst heapifyDown.simps) simp
    ultimately show ?thesis by blast
  next
    case False
    then have sc: "s = ?l \<or> s = ?r" and sn: "s < ?n" and lt: "?k index < ?k s"
      and l: "?l < ?n \<longrightarrow> ?k ?l \<le> ?k s" and r: "?r < ?n \<longrightarrow> ?k ?r \<le> ?k s"
      by (auto simp: s_def s1_def split: if_splits)
    have b: "0 \<le> s" "s < int (length ?a)" "index < int (length ?a)" "index < ?n"
      using sc sn "1.prems" by auto
    let ?b = "?a[nat index := ?a ! nat s, nat s := ?a ! nat index]"
    have sw: "pq_swap ?a index s = Inr ?b"
      using b "1.prems" by (simp add: pq_swap_in)
    have "down_inv (swapf ?k index s) ?n s"
      using "1.prems"(3,1) sc sn lt l r by (rule down_step)
    then have inv': "down_inv (key f (events (pq\<lparr>events := ?b\<rparr>))) (pq_size (pq\<lparr>events := ?b\<rparr>)) s"
      using b "1.prems" by (simp add: key_swap)
    have "\<exists>a'. heapifyDown f (pq\<lparr>events := ?b\<rparr>) s = Inr (pq\<lparr>events := ?b\<rparr>\<lparr>events := a'\<rparr>) \<and>
        length a' = length (events (pq\<lparr>events := ?b\<rparr>)) \<and>
        heap_ord (key f a') (pq_size (pq\<lparr>events := ?b\<rparr>)) \<and>
        mset a' = mset (events (pq\<lparr>events := ?b\<rparr>)) \<and>
        drop (nat (pq_size (pq\<lparr>events := ?b\<rparr>))) a' =
          drop (nat (pq_size (pq\<lparr>events := ?b\<rparr>))) (events (pq\<lparr>events := ?b\<rparr>))"
      using b "1.prems" inv'
      by (intro "1.IH" [OF refl refl s1 s False sw]) simp_all
    then obtain a' where res: "heapifyDown f (pq\<lparr>events := ?b\<rparr>) s = Inr (pq\<lparr>events := a'\<rparr>)"
      and len: "length a' = length ?a" and ho: "heap_ord (key f a') ?n"
      and ms: "mset a' = mset ?b" and dr: "drop (nat ?n) a' = drop (nat ?n) ?b"
      by auto
    have "heapifyDown f pq index = Inr (pq\<lparr>events := a'\<rparr>)"
      using s1 s False sw res by (subst heapifyDown.simps) simp
    moreover have "mset a' = mset ?a"
      using ms b "1.prems" by (simp add: mset_swap)
    moreover have "drop (nat ?n) a' = drop (nat ?n) ?a"
      using dr b sn "1.prems" by simp
    ultimately show ?thesis using len ho by blast
  qed
qed


lemma up_inv_append:
  assumes "heap_ord k n" and "0 \<le> n" and same: "\<And>c. 0 \<le> c \<Longrightarrow> c < n \<Longrightarrow> k' c = k c"
  shows "up_inv k' (n + 1) n"
  unfolding up_inv_def
proof (intro conjI allI impI)
  fix c assume c: "0 < c \<and> c < n + 1 \<and> c \<noteq> n"
  then have "k c \<le> k (par c)" using assms(1) by (simp add: heap_ord_def)
  moreover have "0 \<le> par c" "par c < n" using c par_ge [of c] par_lt [of c] by auto
  ultimately show "k' c \<le> k' (par c)" using c same by simp
next
  fix c assume c: "0 < c \<and> c < n + 1 \<and> par c = n \<and> 0 < n"
  then have "par c = n" by simp
  then have "c = 2 * n + 1 \<or> c = 2 * n + 2" by (simp only: par_iff)
  then have False using c by linarith
  then show "k' c \<le> k' (par n)" by simp
qed

lemma down_inv_root:
  assumes "heap_ord k n" and "m \<le> n" and same: "\<And>c. 0 < c \<Longrightarrow> c < m \<Longrightarrow> k' c = k c"
  shows "down_inv k' m 0"
  unfolding down_inv_def
proof (intro conjI allI impI)
  fix c assume c: "0 < c \<and> c < m \<and> par c \<noteq> 0"
  then have "k c \<le> k (par c)" using assms(1,2) by (simp add: heap_ord_def)
  moreover have "0 < par c" "par c < m" using c par_ge [of c] par_lt [of c] by auto
  ultimately show "k' c \<le> k' (par c)" using c same by simp
qed simp

lemma mset_take_eq:
  assumes "mset a = mset b" and "drop m a = drop m b"
  shows "mset (take m a) = mset (take m b)"
proof -
  have "mset (take m a) + mset (drop m a) = mset (take m b) + mset (drop m b)"
    using assms(1) by (simp flip: mset_append)
  then show ?thesis using assms(2) by simp
qed

lemma mset_take_store:
  assumes "n < length a"
  shows "mset (take (Suc n) (a[n := e])) = add_mset e (mset (take n a))"
  using assms by (simp add: take_Suc_conv_app_nth)

lemma mset_take_root:
  assumes "n < length a"
  shows "add_mset (a ! 0) (mset (take n (a[0 := a ! n]))) = mset (take (Suc n) a)"
proof (cases n)
  case 0
  then show ?thesis using assms by (simp add: take_Suc_conv_app_nth)
next
  case (Suc m)
  have "take n (a[0 := a ! n]) = (take n a)[0 := a ! n]"
    by (simp add: take_update_swap)
  moreover have l: "0 < length (take n a)" and z: "take n a ! 0 = a ! 0"
    using assms Suc by simp_all
  moreover have "a ! 0 \<in># mset (take n a)"
    using nth_mem [OF l] z by simp
  ultimately have "add_mset (a ! 0) (mset (take n (a[0 := a ! n]))) =
      add_mset (a ! n) (mset (take n a))"
    by (simp add: mset_update)
  then show ?thesis using assms by (simp add: take_Suc_conv_app_nth)
qed

lemma send_insert_effect:
  assumes wf: "wf_queue pq" and lt: "pq_size pq < PQ_MAX_EVENT_SIZE"
    and ho: "heap_ord (key f (events pq)) (pq_size pq)"
  shows "\<exists>a'. heapifyUp f (pq\<lparr>events := (events pq)[nat (pq_size pq) := e],
                               pq_size := pq_size pq + 1\<rparr>) (pq_size pq) =
           Inr (pq\<lparr>events := a', pq_size := pq_size pq + 1\<rparr>) \<and>
         length a' = length (events pq) \<and> heap_ord (key f a') (pq_size pq + 1) \<and>
         mset (take (nat (pq_size pq + 1)) a') = add_mset e (mset (take (nat (pq_size pq)) (events pq)))"
proof -
  let ?n = "pq_size pq"
  let ?a = "(events pq)[nat ?n := e]"
  let ?pq = "pq\<lparr>events := ?a, pq_size := ?n + 1\<rparr>"
  have n: "0 \<le> ?n" "?n < int (length (events pq))"
    using wf lt by (simp_all add: wf_queue_def)
  have "up_inv (key f ?a) (?n + 1) ?n"
    using ho n(1) by (rule up_inv_append) (simp add: key_def)
  then have "\<exists>a'. heapifyUp f ?pq ?n = Inr (?pq\<lparr>events := a'\<rparr>) \<and>
      length a' = length (events ?pq) \<and> heap_ord (key f a') (?n + 1) \<and>
      mset a' = mset (events ?pq) \<and> drop (nat (?n + 1)) a' = drop (nat (?n + 1)) (events ?pq)"
    using n by (intro heapifyUp_sifts) simp_all
  then obtain a' where up: "heapifyUp f ?pq ?n = Inr (?pq\<lparr>events := a'\<rparr>)"
    and len: "length a' = length (events pq)" and ho': "heap_ord (key f a') (?n + 1)"
    and ms: "mset a' = mset ?a" and dr: "drop (nat (?n + 1)) a' = drop (nat (?n + 1)) ?a"
    by auto
  have e1: "nat (?n + 1) = Suc (nat ?n)" using n by simp
  have "mset (take (nat (?n + 1)) a') = mset (take (nat (?n + 1)) ?a)"
    using ms dr by (rule mset_take_eq)
  moreover have "mset (take (Suc (nat ?n)) ?a) = add_mset e (mset (take (nat ?n) (events pq)))"
    using n by (intro mset_take_store) simp
  ultimately have m: "mset (take (nat (?n + 1)) a') = add_mset e (mset (take (nat ?n) (events pq)))"
    by (simp only: e1)
  have "?pq\<lparr>events := a'\<rparr> = pq\<lparr>events := a', pq_size := ?n + 1\<rparr>" by simp
  then show ?thesis using up len ho' m by metis
qed

lemma send_effect:
  assumes wf: "wf_queue pq" and lt: "pq_size pq < PQ_MAX_EVENT_SIZE"
    and mx: "mutex_free pq" and ho: "heap_ord (key f (events pq)) (pq_size pq)"
  shows "\<exists>a'. xPriorityQueueSend f pq e t =
           Inr (pdPASS, pq\<lparr>events := a', pq_size := pq_size pq + 1,
                  eventSemaphore := snd (xSemaphoreGive (eventSemaphore pq))\<rparr>) \<and>
         length a' = length (events pq) \<and> heap_ord (key f a') (pq_size pq + 1) \<and>
         mset (take (nat (pq_size pq + 1)) a') = add_mset e (mset (take (nat (pq_size pq)) (events pq)))"
proof -
  let ?n = "pq_size pq"
  let ?pq1 = "pq\<lparr>mutex := \<lparr>uxMessagesWaiting = 0, uxLength = 1\<rparr>\<rparr>"
  have wf1: "wf_queue ?pq1" using wf by (simp add: wf_queue_def)
  have lt1: "pq_size ?pq1 < PQ_MAX_EVENT_SIZE" using lt by simp
  have ho1: "heap_ord (key f (events ?pq1)) (pq_size ?pq1)" using ho by simp
  have n: "0 \<le> ?n" "?n < int (length (events pq))"
    using wf lt by (simp_all add: wf_queue_def)
  obtain a' where up: "heapifyUp f (?pq1\<lparr>events := (events ?pq1)[nat (pq_size ?pq1) := e],
                               pq_size := pq_size ?pq1 + 1\<rparr>) (pq_size ?pq1) =
           Inr (?pq1\<lparr>events := a', pq_size := pq_size ?pq1 + 1\<rparr>)"
    and len: "length a' = length (events pq)" and ho': "heap_ord (key f a') (?n + 1)"
    and m: "mset (take (nat (?n + 1)) a') = add_mset e (mset (take (nat ?n) (events pq)))"
    using send_insert_effect [OF wf1 lt1 ho1, of e] by auto
  have "\<exists>r. xPriorityQueueSend f pq e t = Inr (pdPASS, r) \<and> events r = a' \<and>
      pq_size r = ?n + 1 \<and> eventSemaphore r = snd (xSemaphoreGive (eventSemaphore pq)) \<and>
      mutex r = mutex pq"
    using mx lt n up
    by (simp add: xPriorityQueueSend_def mutex_free_def xSemaphoreTake_def pdTRUE_def wr_in
        pdPASS_def xSemaphoreGive_def)
  then obtain r where r: "xPriorityQueueSend f pq e t = Inr (pdPASS, r)"
    and fields: "events r = a'" "pq_size r = ?n + 1"
      "eventSemaphore r = snd (xSemaphoreGive (eventSemaphore pq))" "mutex r = mutex pq"
    by blast
  have "r = pq\<lparr>events := a', pq_size := ?n + 1,
             eventSemaphore := snd (xSemaphoreGive (eventSemaphore pq))\<rparr>"
    using fields by (intro pq_handle_t.equality) simp_all
  then show ?thesis using r len ho' m by blast
qed

lemma receive_locked_effect:
  assumes wf: "wf_queue pq" and pos: "0 < pq_size pq"
    and ho: "heap_ord (key f (events pq)) (pq_size pq)"
  shows "\<exists>a'. receive_locked f pq =
           Inr (Some (events pq ! 0), pq\<lparr>events := a', pq_size := pq_size pq - 1\<rparr>) \<and>
         length a' = length (events pq) \<and> heap_ord (key f a') (pq_size pq - 1) \<and>
         add_mset (events pq ! 0) (mset (take (nat (pq_size pq - 1)) a')) =
           mset (take (nat (pq_size pq)) (events pq))"
proof -
  let ?n = "pq_size pq"
  let ?a = "(events pq)[0 := events pq ! nat (?n - 1)]"
  let ?pq = "pq\<lparr>events := ?a, pq_size := ?n - 1\<rparr>"
  have n: "?n \<le> int (length (events pq))" using wf by (simp add: wf_queue_def)
  have "down_inv (key f ?a) (?n - 1) 0"
    using ho by (rule down_inv_root) (simp_all add: key_def)
  then have "\<exists>a'. heapifyDown f ?pq 0 = Inr (?pq\<lparr>events := a'\<rparr>) \<and>
      length a' = length (events ?pq) \<and> heap_ord (key f a') (pq_size ?pq) \<and>
      mset a' = mset (events ?pq) \<and>
      drop (nat (pq_size ?pq)) a' = drop (nat (pq_size ?pq)) (events ?pq)"
    using n by (intro heapifyDown_sifts) simp_all
  then obtain a' where dn: "heapifyDown f ?pq 0 = Inr (?pq\<lparr>events := a'\<rparr>)"
    and len: "length a' = length (events pq)" and ho': "heap_ord (key f a') (?n - 1)"
    and ms: "mset a' = mset ?a" and dr: "drop (nat (?n - 1)) a' = drop (nat (?n - 1)) ?a"
    by auto
  have "mset (take (nat (?n - 1)) a') = mset (take (nat (?n - 1)) ?a)"
    using ms dr by (rule mset_take_eq)
  moreover have "add_mset (events pq ! 0) (mset (take (nat (?n - 1)) ?a)) =
      mset (take (Suc (nat (?n - 1))) (events pq))"
    using n pos by (intro mset_take_root) simp
  moreover have "Suc (nat (?n - 1)) = nat ?n" using pos by simp
  ultimately have m: "add_mset (events pq ! 0) (mset (take (nat (?n - 1)) a')) =
      mset (take (nat ?n) (events pq))" by simp
  have b: "0 < int (length (events pq))" "0 \<le> ?n - 1" "?n - 1 < int (length (events pq))"
    using pos n by linarith+
  have "receive_locked f pq = Inr (Some (events pq ! 0), pq\<lparr>events := a', pq_size := ?n - 1\<rparr>)"
    using pos dn by (simp add: receive_locked_def rd_in [OF _ b(1)] rd_in [OF b(2,3)] wr_in [OF _ b(1)])
  then show ?thesis using len ho' m by blast
qed

section \<open>Every call keeps the order of the heap\<close>

text \<open>Well formed and in order: what every call keeps, whatever the semaphores hold.\<close>

lemma send_keeps_order:
  assumes wf: "wf_queue pq" and ho: "heap_ord (key f (events pq)) (pq_size pq)"
    and r: "xPriorityQueueSend f pq e t = Inr (r, pq')"
  shows "wf_queue pq' \<and> heap_ord (key f (events pq')) (pq_size pq')"
proof -
  let ?m = "(mutex pq)\<lparr>uxMessagesWaiting := uxMessagesWaiting (mutex pq) - 1\<rparr>"
  consider (blocked) "xSemaphoreTake (mutex pq) t = Inl BlocksForever"
    | (timeout) "xSemaphoreTake (mutex pq) t = Inr (pdFALSE, mutex pq)"
    | (taken) "xSemaphoreTake (mutex pq) t = Inr (pdTRUE, ?m)"
    using take_cases [of "mutex pq" t] by auto
  then show ?thesis
  proof cases
    case blocked
    then show ?thesis using r by (simp add: xPriorityQueueSend_def)
  next
    case timeout
    then show ?thesis using r wf ho by (auto simp: xPriorityQueueSend_def wf_queue_def)
  next
    case taken
    show ?thesis
    proof (cases "PQ_MAX_EVENT_SIZE \<le> pq_size pq")
      case True
      then show ?thesis using r wf ho taken by (auto simp: xPriorityQueueSend_def wf_queue_def)
    next
      case False
      let ?pq1 = "pq\<lparr>mutex := ?m\<rparr>"
      have wf1: "wf_queue ?pq1" using wf by (simp add: wf_queue_def)
      have lt: "pq_size ?pq1 < PQ_MAX_EVENT_SIZE" using False by simp
      have ho1: "heap_ord (key f (events ?pq1)) (pq_size ?pq1)" using ho by simp
      obtain a' where up: "heapifyUp f (?pq1\<lparr>events := (events ?pq1)[nat (pq_size ?pq1) := e],
                               pq_size := pq_size ?pq1 + 1\<rparr>) (pq_size ?pq1) =
           Inr (?pq1\<lparr>events := a', pq_size := pq_size ?pq1 + 1\<rparr>)"
        and len: "length a' = length (events ?pq1)"
        and ho': "heap_ord (key f a') (pq_size ?pq1 + 1)"
        using send_insert_effect [OF wf1 lt ho1, of e] by blast
      have wr: "wr (events pq) (pq_size pq) e = Inr ((events pq)[nat (pq_size pq) := e])"
        using wf False by (simp add: wr_in wf_queue_def)
      have "events pq' = a' \<and> pq_size pq' = pq_size pq + 1"
        using r False taken wr up by (auto simp: xPriorityQueueSend_def)
      then show ?thesis using len ho' wf False by (simp add: wf_queue_def)
    qed
  qed
qed

lemma receive_locked_keeps_order:
  assumes wf: "wf_queue pq" and ho: "heap_ord (key f (events pq)) (pq_size pq)"
    and r: "receive_locked f pq = Inr (out, pq')"
  shows "wf_queue pq' \<and> heap_ord (key f (events pq')) (pq_size pq') \<and>
     mutex pq' = mutex pq \<and> eventSemaphore pq' = eventSemaphore pq"
proof (cases "0 < pq_size pq")
  case False
  then show ?thesis using r wf ho by (auto simp: receive_locked_def)
next
  case True
  from receive_locked_effect [OF wf True ho]
  show ?thesis using r wf True by (auto simp: wf_queue_def)
qed

lemma receive_keeps_order:
  assumes wf: "wf_queue pq" and ho: "heap_ord (key f (events pq)) (pq_size pq)"
    and r: "xPriorityQueueReceive f pq t = Inr (r, out, pq')"
  shows "wf_queue pq' \<and> heap_ord (key f (events pq')) (pq_size pq')"
proof -
  have k: "wf_queue q' \<and> heap_ord (key f (events q')) (pq_size q')"
    if "receive_locked f (pq\<lparr>eventSemaphore := s, mutex := m\<rparr>) = Inr (o', q')" for s m o' q'
    using receive_locked_keeps_order [of "pq\<lparr>eventSemaphore := s, mutex := m\<rparr>" f o' q'] wf ho that
    by (simp add: wf_queue_def)
  have k': "wf_queue (q'\<lparr>mutex := x\<rparr>) \<and> heap_ord (key f (events q')) (pq_size q')"
    if "receive_locked f (pq\<lparr>eventSemaphore := s, mutex := m\<rparr>) = Inr (o', q')" for s m o' q' x
    using k [OF that] by (simp add: wf_queue_def)
  show ?thesis
  proof (cases f)
    case App_src
    then show ?thesis
      using r wf ho k'
      by (auto simp: Let_def wf_queue_def split: sum.splits if_splits prod.splits)
  next
    case Part_001
    then show ?thesis
      using r wf ho k'
      by (auto simp: Let_def wf_queue_def split: sum.splits if_splits prod.splits)
  qed
qed

lemma run_keeps_order:
  "wf_queue pq \<Longrightarrow> heap_ord (key f (events pq)) (pq_size pq) \<Longrightarrow>
   run f pq cs = Inr (os, pq') \<Longrightarrow>
   wf_queue pq' \<and> heap_ord (key f (events pq')) (pq_size pq')"
proof (induction cs arbitrary: pq os)
  case Nil
  then show ?case by simp
next
  case (Cons c cs)
  show ?case
  proof (cases c)
    case (Send e t)
    then obtain r q os' where s: "xPriorityQueueSend f pq e t = Inr (r, q)"
      and rest: "run f q cs = Inr (os', pq')"
      using Cons.prems(3) by (auto split: sum.splits prod.splits)
    from send_keeps_order [OF Cons.prems(1,2) s] Cons.IH [OF _ _ rest]
    show ?thesis by blast
  next
    case (Receive t)
    then obtain r out q os' where s: "xPriorityQueueReceive f pq t = Inr (r, out, q)"
      and rest: "run f q cs = Inr (os', pq')"
      using Cons.prems(3) by (auto split: sum.splits prod.splits)
    from receive_keeps_order [OF Cons.prems(1,2) s] Cons.IH [OF _ _ rest]
    show ?thesis by blast
  qed
qed


lemma create_Some:
  assumes "xPriorityQueueCreate f env = (Some pq, live)"
  shows "events pq = raw_events env \<and> pq_size pq = 0 \<and> mutex_free pq \<and>
     eventSemaphore pq = \<lparr>uxMessagesWaiting = nat (uxInitialCount f), uxLength = 10\<rparr>"
  using assms
  by (auto simp: xPriorityQueueCreate_def xSemaphoreCreateMutex_def mutex_free_def
      xSemaphoreCreateCounting_def PQ_MAX_EVENT_SIZE_def Let_def split: if_splits option.splits)

lemma scenario_keeps_order:
  assumes len: "length (raw_events env) = 10"
    and sc: "scenario f env cs = Some (Inr (os, pq))"
  shows "wf_queue pq \<and> heap_ord (key f (events pq)) (pq_size pq)"
proof -
  obtain q live where c: "xPriorityQueueCreate f env = (Some q, live)"
    and r: "run f q cs = Inr (os, pq)"
    using sc by (cases "xPriorityQueueCreate f env") (auto simp: scenario_def)
  have q: "events q = raw_events env" "pq_size q = 0" using create_Some [OF c] by simp_all
  have "wf_queue q" using q len by (simp add: wf_queue_def PQ_MAX_EVENT_SIZE_def)
  moreover have "heap_ord (key f (events q)) (pq_size q)" using q by (simp add: heap_ord_def)
  ultimately show ?thesis using r by (rule run_keeps_order)
qed

lemma heap_ord_children:
  assumes "heap_ord k n" and "0 \<le> i"
  shows "(2 * i + 1 < n \<longrightarrow> k (2 * i + 1) \<le> k i) \<and> (2 * i + 2 < n \<longrightarrow> k (2 * i + 2) \<le> k i)"
proof -
  have "par (2 * i + 1) = i" "par (2 * i + 2) = i" by (simp_all add: par_iff)
  moreover have "0 < 2 * i + 1" "0 < 2 * i + 2" using assms(2) by simp_all
  ultimately show ?thesis using assms(1) unfolding heap_ord_def by metis
qed

text \<open>
  In \<^verbatim>\<open>part_001\<close> every state a sequence of calls reaches from a new queue is a max-heap,
  and its root holds a priority that no occupied cell exceeds.
\<close>

theorem part_001_max_heap:
  assumes "length (raw_events env) = 10"
    and "scenario Part_001 env cs = Some (Inr (os, pq))"
  shows "is_max_heap pq \<and>
     (\<forall>i \<in> {0 ..< pq_size pq}.
        enum_val (priority (events pq ! nat i)) \<le> enum_val (priority (events pq ! 0)))"
proof -
  let ?k = "key Part_001 (events pq)"
  have ho: "heap_ord ?k (pq_size pq)"
    using scenario_keeps_order [OF assms] by simp
  have k: "?k c = enum_val (priority (events pq ! nat c))" if "0 \<le> c" for c
    using that by (simp add: key_def)
  have "is_max_heap pq"
    unfolding is_max_heap_def
  proof (intro ballI)
    fix i assume "i \<in> {0 ..< pq_size pq}"
    then have i: "0 \<le> i" by simp
    show "(2 * i + 1 < pq_size pq \<longrightarrow>
           enum_val (priority (events pq ! nat (2 * i + 1))) \<le> enum_val (priority (events pq ! nat i))) \<and>
        (2 * i + 2 < pq_size pq \<longrightarrow>
           enum_val (priority (events pq ! nat (2 * i + 2))) \<le> enum_val (priority (events pq ! nat i)))"
      using heap_ord_children [OF ho i] i k [of i] k [of "2 * i + 1"] k [of "2 * i + 2"]
      by simp
  qed
  moreover have "enum_val (priority (events pq ! nat i)) \<le> enum_val (priority (events pq ! 0))"
    if "i \<in> {0 ..< pq_size pq}" for i
    using heap_root_max [OF ho, of i] that k [of i] k [of 0] by simp
  ultimately show ?thesis by blast
qed

text \<open>
  In \<^verbatim>\<open>app/src/priority_queue.c\<close> the same states are min-heaps: the root holds a
  priority that no occupied cell is below.
\<close>

theorem app_src_min_heap:
  assumes "length (raw_events env) = 10"
    and "scenario App_src env cs = Some (Inr (os, pq))"
  shows "\<forall>i \<in> {0 ..< pq_size pq}.
        enum_val (priority (events pq ! 0)) \<le> enum_val (priority (events pq ! nat i))"
proof
  fix i assume i: "i \<in> {0 ..< pq_size pq}"
  let ?k = "key App_src (events pq)"
  have ho: "heap_ord ?k (pq_size pq)"
    using scenario_keeps_order [OF assms] by simp
  have k: "?k c = - enum_val (priority (events pq ! nat c))" if "0 \<le> c" for c
    using that by (simp add: key_def)
  show "enum_val (priority (events pq ! 0)) \<le> enum_val (priority (events pq ! nat i))"
    using heap_root_max [OF ho, of i] i k [of i] k [of 0] by simp
qed

section \<open>Calls made one after the other\<close>

text \<open>
  When each call is complete before the next starts, the mutex is free at every call.
  A state is \<open>settled\<close> when moreover the semaphore counts the events stored: a new
  queue of \<^verbatim>\<open>part_001\<close> is, and every call keeps it so.
\<close>

lemma send_settled_full:
  assumes "settled f pq" and "PQ_MAX_EVENT_SIZE \<le> pq_size pq"
  shows "xPriorityQueueSend f pq e t = Inr (pdFAIL, pq)"
  using assms by (simp add: settled_def xPriorityQueueSend_def mutex_free_def sem_defs)

lemma send_settled_room:
  assumes st: "settled f pq" and lt: "pq_size pq < PQ_MAX_EVENT_SIZE"
  shows "\<exists>pq'. xPriorityQueueSend f pq e t = Inr (pdPASS, pq') \<and> settled f pq' \<and>
     pq_size pq' = pq_size pq + 1 \<and>
     mset (take (nat (pq_size pq')) (events pq')) = add_mset e (mset (take (nat (pq_size pq)) (events pq)))"
proof -
  have wf: "wf_queue pq" and mx: "mutex_free pq"
    and ho: "heap_ord (key f (events pq)) (pq_size pq)"
    and sem: "eventSemaphore pq = \<lparr>uxMessagesWaiting = nat (pq_size pq), uxLength = 10\<rparr>"
    using st by (simp_all add: settled_def)
  obtain a' where s: "xPriorityQueueSend f pq e t =
           Inr (pdPASS, pq\<lparr>events := a', pq_size := pq_size pq + 1,
                  eventSemaphore := snd (xSemaphoreGive (eventSemaphore pq))\<rparr>)"
    and len: "length a' = length (events pq)"
    and ho': "heap_ord (key f a') (pq_size pq + 1)"
    and ms: "mset (take (nat (pq_size pq + 1)) a') = add_mset e (mset (take (nat (pq_size pq)) (events pq)))"
    using send_effect [OF wf lt mx ho, of e t] by blast
  have n: "0 \<le> pq_size pq" "pq_size pq < 10"
    using wf lt by (simp_all add: wf_queue_def PQ_MAX_EVENT_SIZE_def)
  have give: "snd (xSemaphoreGive (eventSemaphore pq)) =
      \<lparr>uxMessagesWaiting = nat (pq_size pq + 1), uxLength = 10\<rparr>"
    using sem n by (simp add: xSemaphoreGive_def nat_add_distrib)
  let ?pq' = "pq\<lparr>events := a', pq_size := pq_size pq + 1,
                  eventSemaphore := snd (xSemaphoreGive (eventSemaphore pq))\<rparr>"
  have "settled f ?pq'"
    using wf mx len ho' give lt
    by (simp add: settled_def wf_queue_def mutex_free_def)
  then show ?thesis using s ms by auto
qed

lemma receive_settled_empty:
  assumes "settled f pq" and "pq_size pq = 0"
  shows "xPriorityQueueReceive f pq t =
     (if t = portMAX_DELAY then Inl BlocksForever else Inr (pdFAIL, None, pq))"
  using assms by (cases f) (simp_all add: settled_def xSemaphoreTake_def pdFAIL_def pdTRUE_def pdFALSE_def)

lemma receive_settled_some:
  assumes st: "settled f pq" and pos: "0 < pq_size pq"
  shows "\<exists>pq'. xPriorityQueueReceive f pq t = Inr (pdPASS, Some (events pq ! 0), pq') \<and>
     settled f pq' \<and> pq_size pq' = pq_size pq - 1 \<and>
     add_mset (events pq ! 0) (mset (take (nat (pq_size pq')) (events pq'))) =
       mset (take (nat (pq_size pq)) (events pq))"
proof -
  have wf: "wf_queue pq" and mx: "mutex_free pq"
    and ho: "heap_ord (key f (events pq)) (pq_size pq)"
    and sem: "eventSemaphore pq = \<lparr>uxMessagesWaiting = nat (pq_size pq), uxLength = 10\<rparr>"
    using st by (simp_all add: settled_def)
  let ?s = "\<lparr>uxMessagesWaiting = nat (pq_size pq) - 1, uxLength = 10\<rparr>"
  let ?m = "\<lparr>uxMessagesWaiting = 0, uxLength = 1\<rparr>"
  let ?pq1 = "pq\<lparr>eventSemaphore := ?s, mutex := ?m\<rparr>"
  have wf1: "wf_queue ?pq1" using wf by (simp add: wf_queue_def)
  have pos1: "0 < pq_size ?pq1" using pos by simp
  have ho1: "heap_ord (key f (events ?pq1)) (pq_size ?pq1)" using ho by simp
  obtain a' where rl: "receive_locked f ?pq1 =
           Inr (Some (events ?pq1 ! 0), ?pq1\<lparr>events := a', pq_size := pq_size ?pq1 - 1\<rparr>)"
    and len: "length a' = length (events ?pq1)"
    and ho': "heap_ord (key f a') (pq_size ?pq1 - 1)"
    and ms: "add_mset (events ?pq1 ! 0) (mset (take (nat (pq_size ?pq1 - 1)) a')) =
           mset (take (nat (pq_size ?pq1)) (events ?pq1))"
    using receive_locked_effect [OF wf1 pos1 ho1] by blast
  let ?pq' = "pq\<lparr>events := a', pq_size := pq_size pq - 1, eventSemaphore := ?s\<rparr>"
  have took: "xSemaphoreTake (eventSemaphore pq) t = Inr (pdTRUE, ?s)"
    using sem pos by (simp add: xSemaphoreTake_def)
  have tookm: "xSemaphoreTake (mutex pq) t' = Inr (pdTRUE, ?m)" for t'
    using mx by (simp add: xSemaphoreTake_def mutex_free_def)
  have "\<exists>r. xPriorityQueueReceive f pq t = Inr (pdPASS, Some (events pq ! 0), r) \<and>
      events r = a' \<and> pq_size r = pq_size pq - 1 \<and> eventSemaphore r = ?s \<and> mutex r = mutex pq"
    using took tookm rl mx
    by (cases f) (simp_all add: mutex_free_def xSemaphoreGive_def pdPASS_def)
  then obtain r where r: "xPriorityQueueReceive f pq t = Inr (pdPASS, Some (events pq ! 0), r)"
    and fields: "events r = a'" "pq_size r = pq_size pq - 1" "eventSemaphore r = ?s"
      "mutex r = mutex pq"
    by blast
  have "nat (pq_size pq) - 1 = nat (pq_size pq - 1)" using pos by simp
  then have "settled f r"
    using fields wf mx len ho' pos by (simp add: settled_def wf_queue_def mutex_free_def)
  then show ?thesis using r ms fields by auto
qed


lemma run_settled_count:
  "settled f pq \<Longrightarrow> run f pq cs = Inr (os, pq') \<Longrightarrow>
   settled f pq' \<and> pq_size pq' = pq_size pq + sends_passed os - receives_passed os"
proof (induction cs arbitrary: pq os)
  case Nil
  then show ?case by simp
next
  case (Cons c cs)
  show ?case
  proof (cases c)
    case (Send e t)
    show ?thesis
    proof (cases "pq_size pq < PQ_MAX_EVENT_SIZE")
      case True
      obtain q where s: "xPriorityQueueSend f pq e t = Inr (pdPASS, q)" and q: "settled f q"
        and sz: "pq_size q = pq_size pq + 1"
        using send_settled_room [OF Cons.prems(1) True, of e t] by blast
      obtain os' where os: "os = Sent pdPASS # os'" and rest: "run f q cs = Inr (os', pq')"
        using Cons.prems(2) Send s by (auto split: sum.splits prod.splits)
      show ?thesis using Cons.IH [OF q rest] os sz by simp
    next
      case False
      then have s: "xPriorityQueueSend f pq e t = Inr (pdFAIL, pq)"
        using send_settled_full [OF Cons.prems(1)] by simp
      obtain os' where os: "os = Sent pdFAIL # os'" and rest: "run f pq cs = Inr (os', pq')"
        using Cons.prems(2) Send s by (auto split: sum.splits prod.splits)
      show ?thesis using Cons.IH [OF Cons.prems(1) rest] os by simp
    qed
  next
    case (Receive t)
    have wf: "wf_queue pq" using Cons.prems(1) by (simp add: settled_def)
    show ?thesis
    proof (cases "0 < pq_size pq")
      case True
      obtain q where s: "xPriorityQueueReceive f pq t = Inr (pdPASS, Some (events pq ! 0), q)"
        and q: "settled f q" and sz: "pq_size q = pq_size pq - 1"
        using receive_settled_some [OF Cons.prems(1) True, of t] by blast
      obtain os' where os: "os = Received pdPASS (Some (events pq ! 0)) # os'"
        and rest: "run f q cs = Inr (os', pq')"
        using Cons.prems(2) Receive s by (auto split: sum.splits prod.splits)
      show ?thesis using Cons.IH [OF q rest] os sz by simp
    next
      case False
      then have z: "pq_size pq = 0" using wf by (simp add: wf_queue_def)
      have s: "xPriorityQueueReceive f pq t = Inr (pdFAIL, None, pq)"
        using receive_settled_empty [OF Cons.prems(1) z, of t] Cons.prems(2) Receive
        by (auto split: if_splits)
      obtain os' where os: "os = Received pdFAIL None # os'" and rest: "run f pq cs = Inr (os', pq')"
        using Cons.prems(2) Receive s by (auto split: sum.splits prod.splits)
      show ?thesis using Cons.IH [OF Cons.prems(1) rest] os by simp
    qed
  qed
qed

lemma part_001_new_settled:
  assumes "length (raw_events env) = 10" and "xPriorityQueueCreate Part_001 env = (Some q, live)"
  shows "settled Part_001 q \<and> pq_size q = 0"
  using create_Some [OF assms(2)] assms(1)
  by (simp add: settled_def wf_queue_def heap_ord_def PQ_MAX_EVENT_SIZE_def)

text \<open>
  In \<^verbatim>\<open>part_001\<close>, after any sequence of calls on a new queue, each call complete
  before the next, \<^verbatim>\<open>size\<close> is the number of sends that returned \<^verbatim>\<open>pdPASS\<close> minus the
  number of receives that did, and lies between 0 and \<^verbatim>\<open>PQ_MAX_EVENT_SIZE\<close>.
\<close>

theorem part_001_size_is_count:
  assumes "length (raw_events env) = 10"
    and "scenario Part_001 env cs = Some (Inr (os, pq))"
  shows "pq_size pq = sends_passed os - receives_passed os \<and>
     0 \<le> pq_size pq \<and> pq_size pq \<le> PQ_MAX_EVENT_SIZE"
proof -
  obtain q live where c: "xPriorityQueueCreate Part_001 env = (Some q, live)"
    and r: "run Part_001 q cs = Inr (os, pq)"
    using assms(2) by (cases "xPriorityQueueCreate Part_001 env") (auto simp: scenario_def)
  have q: "settled Part_001 q" "pq_size q = 0"
    using part_001_new_settled [OF assms(1) c] by simp_all
  have "settled Part_001 pq \<and> pq_size pq = pq_size q + sends_passed os - receives_passed os"
    using q(1) r by (rule run_settled_count)
  then show ?thesis using q(2) by (simp add: settled_def wf_queue_def)
qed

lemma run_append:
  "run f pq (cs @ ds) =
     (case run f pq cs of Inl x \<Rightarrow> Inl x
      | Inr (os, q) \<Rightarrow>
         (case run f q ds of Inl x \<Rightarrow> Inl x | Inr (os', q') \<Rightarrow> Inr (os @ os', q')))"
proof (induction cs arbitrary: pq)
  case Nil
  show ?case by (simp split: sum.splits prod.splits)
next
  case (Cons c cs)
  show ?case by (cases c) (simp_all add: Cons.IH split: sum.splits prod.splits)
qed

lemma run_sends:
  "settled f pq \<Longrightarrow> pq_size pq + int (length es) \<le> PQ_MAX_EVENT_SIZE \<Longrightarrow>
   \<exists>pq'. run f pq (map (\<lambda>e. Send e t) es) = Inr (replicate (length es) (Sent pdPASS), pq') \<and>
     settled f pq' \<and> pq_size pq' = pq_size pq + int (length es) \<and>
     mset (take (nat (pq_size pq')) (events pq')) = mset es + mset (take (nat (pq_size pq)) (events pq))"
proof (induction es arbitrary: pq)
  case Nil
  then show ?case by simp
next
  case (Cons e es)
  have lt: "pq_size pq < PQ_MAX_EVENT_SIZE" using Cons.prems(2) by simp
  obtain q where s: "xPriorityQueueSend f pq e t = Inr (pdPASS, q)" and q: "settled f q"
    and sz: "pq_size q = pq_size pq + 1"
    and ms: "mset (take (nat (pq_size q)) (events q)) = add_mset e (mset (take (nat (pq_size pq)) (events pq)))"
    using send_settled_room [OF Cons.prems(1) lt, of e t] by blast
  have "pq_size q + int (length es) \<le> PQ_MAX_EVENT_SIZE" using Cons.prems(2) sz by simp
  from Cons.IH [OF q this]
  obtain pq' where r: "run f q (map (\<lambda>e. Send e t) es) = Inr (replicate (length es) (Sent pdPASS), pq')"
    and st: "settled f pq'" and sz': "pq_size pq' = pq_size q + int (length es)"
    and ms': "mset (take (nat (pq_size pq')) (events pq')) = mset es + mset (take (nat (pq_size q)) (events q))"
    by blast
  show ?case using s r st sz sz' ms ms' by simp
qed

lemma run_receives:
  "settled f pq \<Longrightarrow> pq_size pq = int n \<Longrightarrow>
   \<exists>out pq'. run f pq (replicate n (Receive t)) = Inr (map (\<lambda>e. Received pdPASS (Some e)) out, pq') \<and>
     settled f pq' \<and> pq_size pq' = 0 \<and> mset out = mset (take n (events pq)) \<and>
     sorted_wrt (\<lambda>x y. rank f (priority y) \<le> rank f (priority x)) out"
proof (induction n arbitrary: pq)
  case 0
  then show ?case by simp
next
  case (Suc n)
  let ?x = "events pq ! 0"
  have pos: "0 < pq_size pq" using Suc.prems(2) by simp
  obtain q where s: "xPriorityQueueReceive f pq t = Inr (pdPASS, Some ?x, q)"
    and q: "settled f q" and sz: "pq_size q = pq_size pq - 1"
    and ms: "add_mset ?x (mset (take (nat (pq_size q)) (events q))) =
       mset (take (nat (pq_size pq)) (events pq))"
    using receive_settled_some [OF Suc.prems(1) pos, of t] by blast
  have szn: "pq_size q = int n" using sz Suc.prems(2) by simp
  from Suc.IH [OF q szn]
  obtain out pq' where r: "run f q (replicate n (Receive t)) = Inr (map (\<lambda>e. Received pdPASS (Some e)) out, pq')"
    and st: "settled f pq'" and z: "pq_size pq' = 0"
    and mo: "mset out = mset (take n (events q))"
    and so: "sorted_wrt (\<lambda>x y. rank f (priority y) \<le> rank f (priority x)) out"
    by blast
  have "nat (pq_size pq) = Suc n" "nat (pq_size q) = n" using szn Suc.prems(2) by simp_all
  then have ms2: "add_mset ?x (mset out) = mset (take (Suc n) (events pq))"
    using ms mo by simp
  have ho: "heap_ord (key f (events pq)) (pq_size pq)" and wf: "wf_queue pq"
    using Suc.prems(1) by (simp_all add: settled_def)
  have top: "rank f (priority y) \<le> rank f (priority ?x)" if "y \<in> set out" for y
  proof -
    have "y \<in># mset (take (Suc n) (events pq))" using that ms2 by (metis set_mset_mset union_single_eq_member insert_iff set_mset_add_mset_insert)
    then have "y \<in> set (take (Suc n) (events pq))" by simp
    then obtain c where c: "c < length (take (Suc n) (events pq))" "take (Suc n) (events pq) ! c = y"
      by (auto simp: in_set_conv_nth)
    then have cn: "c < Suc n" and y: "events pq ! c = y" by simp_all
    have "key f (events pq) (int c) \<le> key f (events pq) 0"
      using ho cn Suc.prems(2) by (intro heap_root_max [of _ "pq_size pq"]) simp_all
    then show ?thesis using y by (simp add: key_def)
  qed
  have "run f pq (replicate (Suc n) (Receive t)) =
      Inr (map (\<lambda>e. Received pdPASS (Some e)) (?x # out), pq')"
    using s r by simp
  moreover have "mset (?x # out) = mset (take (Suc n) (events pq))" using ms2 by simp
  moreover have "sorted_wrt (\<lambda>x y. rank f (priority y) \<le> rank f (priority x)) (?x # out)"
    using so top by simp
  ultimately show ?case using st z by blast
qed


text \<open>
  In \<^verbatim>\<open>part_001\<close>, N sends into a new queue (N at most \<^verbatim>\<open>PQ_MAX_EVENT_SIZE\<close>) all
  return \<^verbatim>\<open>pdPASS\<close>, and the N receives that follow return the events sent, in an
  order of priority that never increases, and leave the queue empty.
\<close>

theorem part_001_receives_never_increase:
  assumes "length raw = 10" and "length es \<le> 10"
  shows "\<exists>out pq.
     scenario Part_001 (all_ok raw)
       (map (\<lambda>e. Send e t) es @ replicate (length es) (Receive t')) =
       Some (Inr (replicate (length es) (Sent pdPASS) @ map (\<lambda>e. Received pdPASS (Some e)) out, pq)) \<and>
     mset out = mset es \<and>
     sorted_wrt (\<lambda>x y. enum_val (priority y) \<le> enum_val (priority x)) out \<and>
     pq_size pq = 0"
proof -
  let ?q = "\<lparr>events = raw, pq_size = 0, mutex = \<lparr>uxMessagesWaiting = 1, uxLength = 1\<rparr>,
            eventSemaphore = \<lparr>uxMessagesWaiting = nat (uxInitialCount Part_001), uxLength = 10\<rparr>\<rparr>"
  have c: "xPriorityQueueCreate Part_001 (all_ok raw) = (Some ?q, [CountingObject, MutexObject, QueueBlock])"
    by (rule create_all_ok)
  have "length (raw_events (all_ok raw)) = 10" using assms(1) by (simp add: all_ok_def)
  from part_001_new_settled [OF this c]
  have q: "settled Part_001 ?q" "pq_size ?q = 0" by simp_all
  have "pq_size ?q + int (length es) \<le> PQ_MAX_EVENT_SIZE"
    using assms(2) by (simp add: PQ_MAX_EVENT_SIZE_def)
  from run_sends [OF q(1) this, of t]
  obtain q1 where r1: "run Part_001 ?q (map (\<lambda>e. Send e t) es) =
        Inr (replicate (length es) (Sent pdPASS), q1)"
    and st1: "settled Part_001 q1" and sz1: "pq_size q1 = int (length es)"
    and ms1: "mset (take (length es) (events q1)) = mset es"
    by auto
  from run_receives [OF st1 sz1, of t']
  obtain out pq where r2: "run Part_001 q1 (replicate (length es) (Receive t')) =
        Inr (map (\<lambda>e. Received pdPASS (Some e)) out, pq)"
    and z: "pq_size pq = 0" and mo: "mset out = mset (take (length es) (events q1))"
    and so: "sorted_wrt (\<lambda>x y. rank Part_001 (priority y) \<le> rank Part_001 (priority x)) out"
    by blast
  have "scenario Part_001 (all_ok raw)
       (map (\<lambda>e. Send e t) es @ replicate (length es) (Receive t')) =
       Some (Inr (replicate (length es) (Sent pdPASS) @ map (\<lambda>e. Received pdPASS (Some e)) out, pq))"
    using c r1 r2 by (simp add: scenario_def run_append)
  then show ?thesis using mo ms1 so z by auto
qed

text \<open>
  In \<^verbatim>\<open>part_001\<close>, once \<^verbatim>\<open>PQ_MAX_EVENT_SIZE\<close> sends into a new queue have returned
  \<^verbatim>\<open>pdPASS\<close>, the next send returns \<^verbatim>\<open>pdFAIL\<close> and the queue still holds the ten
  events sent.
\<close>

lemma part_001_eleventh_send_fails:
  assumes "length raw = 10" and "length es = 10"
  shows "\<exists>pq.
     scenario Part_001 (all_ok raw) (map (\<lambda>e. Send e t) es @ [Send e' t']) =
       Some (Inr (replicate 10 (Sent pdPASS) @ [Sent pdFAIL], pq)) \<and>
     pq_size pq = 10 \<and> mset (events pq) = mset es"
proof -
  let ?q = "\<lparr>events = raw, pq_size = 0, mutex = \<lparr>uxMessagesWaiting = 1, uxLength = 1\<rparr>,
            eventSemaphore = \<lparr>uxMessagesWaiting = nat (uxInitialCount Part_001), uxLength = 10\<rparr>\<rparr>"
  have c: "xPriorityQueueCreate Part_001 (all_ok raw) = (Some ?q, [CountingObject, MutexObject, QueueBlock])"
    by (rule create_all_ok)
  have "length (raw_events (all_ok raw)) = 10" using assms(1) by (simp add: all_ok_def)
  from part_001_new_settled [OF this c]
  have q: "settled Part_001 ?q" "pq_size ?q = 0" by simp_all
  have "pq_size ?q + int (length es) \<le> PQ_MAX_EVENT_SIZE"
    using assms(2) by (simp add: PQ_MAX_EVENT_SIZE_def)
  from run_sends [OF q(1) this, of t]
  obtain q1 where r1: "run Part_001 ?q (map (\<lambda>e. Send e t) es) =
        Inr (replicate (length es) (Sent pdPASS), q1)"
    and st1: "settled Part_001 q1" and sz1: "pq_size q1 = int (length es)"
    and ms1: "mset (take (length es) (events q1)) = mset es"
    by auto
  have "length (events q1) = 10"
    using st1 by (simp add: settled_def wf_queue_def PQ_MAX_EVENT_SIZE_def)
  then have ms: "mset (events q1) = mset es" using ms1 assms(2) by simp
  have "xPriorityQueueSend Part_001 q1 e' t' = Inr (pdFAIL, q1)"
    using st1 sz1 assms(2) by (intro send_settled_full) (simp_all add: PQ_MAX_EVENT_SIZE_def)
  then have "scenario Part_001 (all_ok raw) (map (\<lambda>e. Send e t) es @ [Send e' t']) =
       Some (Inr (replicate 10 (Sent pdPASS) @ [Sent pdFAIL], q1))"
    using c r1 assms(2) by (simp add: scenario_def run_append)
  then show ?thesis using sz1 assms(2) ms by auto
qed

section \<open>The order of the heap in \<^verbatim>\<open>app/src/priority_queue.c\<close>\<close>

lemmas run_defs = scenario_def create_all_ok xPriorityQueueSend_def receive_locked_def
  heapifyUp.simps heapifyDown.simps pick_child_def pq_swap_def rd_def wr_def sem_defs
  PQ_MAX_EVENT_SIZE_def ev_def blank_def

text \<open>
  Claim C1: in every state reached from an empty queue by sends and receives the root
  holds an event of the highest priority stored, and no child has a higher priority than
  its parent.
  \<^verbatim>\<open>app/src/priority_queue.c\<close> compares with \<^verbatim>\<open><\<close> in \<^verbatim>\<open>_heapifyUp\<close> and
  \<^verbatim>\<open>_heapifyDown\<close>, so it keeps the lowest priority at the root: after a send of
  \<^verbatim>\<open>LOW_PRIORITY\<close> and one of \<^verbatim>\<open>HIGH_PRIORITY\<close> the root is the \<^verbatim>\<open>LOW_PRIORITY\<close> event
  and its child at index 1 the \<^verbatim>\<open>HIGH_PRIORITY\<close> one.
\<close>

theorem app_src_root_is_lowest:
  "scenario App_src (all_ok blank) [Send (ev LOW_PRIORITY) 0, Send (ev HIGH_PRIORITY) 0] =
     Some (Inr ([Sent pdPASS, Sent pdPASS],
       \<lparr>events = [ev LOW_PRIORITY, ev HIGH_PRIORITY, ev LOW_PRIORITY, ev LOW_PRIORITY,
          ev LOW_PRIORITY, ev LOW_PRIORITY, ev LOW_PRIORITY, ev LOW_PRIORITY, ev LOW_PRIORITY,
          ev LOW_PRIORITY], pq_size = 2,
        mutex = \<lparr>uxMessagesWaiting = 1, uxLength = 1\<rparr>,
        eventSemaphore = \<lparr>uxMessagesWaiting = 10, uxLength = 10\<rparr>\<rparr>))"
  by (simp add: run_defs)

text \<open>The state of claim C1's example is not a max-heap.\<close>

lemma app_src_not_max_heap:
  "\<exists>os pq. scenario App_src (all_ok blank) [Send (ev LOW_PRIORITY) 0, Send (ev HIGH_PRIORITY) 0] =
       Some (Inr (os, pq)) \<and> \<not> is_max_heap pq"
proof -
  have "\<not> is_max_heap
       \<lparr>events = [ev LOW_PRIORITY, ev HIGH_PRIORITY, ev LOW_PRIORITY, ev LOW_PRIORITY,
          ev LOW_PRIORITY, ev LOW_PRIORITY, ev LOW_PRIORITY, ev LOW_PRIORITY, ev LOW_PRIORITY,
          ev LOW_PRIORITY], pq_size = 2,
        mutex = \<lparr>uxMessagesWaiting = 1, uxLength = 1\<rparr>,
        eventSemaphore = \<lparr>uxMessagesWaiting = 10, uxLength = 10\<rparr>\<rparr>"
    by (auto simp: is_max_heap_def ev_def intro!: bexI [of _ 0])
  then show ?thesis
    by (simp add: run_defs)
qed

text \<open>
  Claim C2: the receives that follow N sends return the events in an order of
  priority that never increases; after sends of Low, High, Medium the receives return
  High, Medium, Low.
  \<^verbatim>\<open>app/src/priority_queue.c\<close> returns them in the opposite order: Low, Medium, High.
\<close>

theorem app_src_receives_lowest_first:
  "map_option (map_sum id fst) (scenario App_src (all_ok blank)
     [Send (ev LOW_PRIORITY) 0, Send (ev HIGH_PRIORITY) 0, Send (ev MEDIUM_PRIORITY) 0,
      Receive 0, Receive 0, Receive 0]) =
     Some (Inr [Sent pdPASS, Sent pdPASS, Sent pdPASS,
       Received pdPASS (Some (ev LOW_PRIORITY)), Received pdPASS (Some (ev MEDIUM_PRIORITY)),
       Received pdPASS (Some (ev HIGH_PRIORITY))])"
  by (simp add: run_defs)

text \<open>\<^verbatim>\<open>part_001\<close> on the same calls, and on a fourth receive, whose wait expires.\<close>

lemma part_001_receives_highest_first:
  "map_option (map_sum id fst) (scenario Part_001 (all_ok blank)
     [Send (ev LOW_PRIORITY) 0, Send (ev HIGH_PRIORITY) 0, Send (ev MEDIUM_PRIORITY) 0,
      Receive 0, Receive 0, Receive 0, Receive 0]) =
     Some (Inr [Sent pdPASS, Sent pdPASS, Sent pdPASS,
       Received pdPASS (Some (ev HIGH_PRIORITY)), Received pdPASS (Some (ev MEDIUM_PRIORITY)),
       Received pdPASS (Some (ev LOW_PRIORITY)), Received pdFAIL None])"
  by (simp add: run_defs)

section \<open>The size and the calls that passed\<close>

text \<open>
  Claim C7: after any sequence of calls on a new queue, \<^verbatim>\<open>size\<close> is the number of sends
  that returned success minus the number of receives that did.
  In \<^verbatim>\<open>app/src/priority_queue.c\<close> the semaphore starts at 10, so a receive on an empty
  queue passes the wait, finds \<^verbatim>\<open>size == 0\<close> and returns \<^verbatim>\<open>pdPASS\<close>: after one send and
  two receives, all three successful, \<^verbatim>\<open>size\<close> is 0 and the difference is -1.
\<close>

theorem app_src_size_count_differs:
  "map_option (map_sum id (\<lambda>(os, pq). (os, pq_size pq, sends_passed os - receives_passed os)))
     (scenario App_src (all_ok blank) [Send (ev HIGH_PRIORITY) 0, Receive 0, Receive 0]) =
     Some (Inr ([Sent pdPASS, Received pdPASS (Some (ev HIGH_PRIORITY)), Received pdPASS None],
       0, - 1))"
  by (simp add: run_defs)

end
